theory Spec2Isabelle
  imports Main "HOL-Library.AList"
begin

section \<open>Data model of the flow notebook\<close>

text \<open>
  The notebook \<^verbatim>\<open>content/algorithms/flow/dinitz_alg.ipynb\<close> works on NetworkX
  directed graphs whose edges carry an attribute dictionary. A \<^verbatim>\<open>DiGraph\<close> keeps, per
  node, an insertion-ordered dictionary of successors; each successor maps to the edge's
  attribute dictionary. Both levels are association lists here, so that the iteration
  order of \<^verbatim>\<open>R.successors(u)\<close> and of \<^verbatim>\<open>flow.items()\<close> is the order of the
  list. Capacities and flows are Python integers.
\<close>

datatype error = KeyError | ValueError | NetworkXError | OverflowError

record edge_data =
  capacity :: "int option"
  etype :: "string option"

type_synonym 'n digraph = "('n \<times> ('n \<times> edge_data) list) list"

type_synonym 'n flow = "(('n \<times> 'n) \<times> int) list"

text \<open>\<^verbatim>\<open>n in G\<close>: the node has an adjacency dictionary.\<close>

definition has_node :: "'n digraph \<Rightarrow> 'n \<Rightarrow> bool" where
  "has_node G n = (map_of G n \<noteq> None)"

text \<open>The attribute dictionary of an edge, when the edge exists.\<close>

definition edges_of :: "'n digraph \<Rightarrow> 'n \<times> 'n \<Rightarrow> edge_data option" where
  "edges_of G e = (case map_of G (fst e) of None \<Rightarrow> None | Some nb \<Rightarrow> map_of nb (snd e))"

text \<open>\<^verbatim>\<open>G[u][v]\<close>: a missing node or a missing successor raises KeyError.\<close>

definition edge_attrs :: "'n digraph \<Rightarrow> 'n \<Rightarrow> 'n \<Rightarrow> error + edge_data" where
  "edge_attrs G u v = (case edges_of G (u, v) of None \<Rightarrow> Inl KeyError | Some d \<Rightarrow> Inr d)"

text \<open>\<^verbatim>\<open>G[u][v]["capacity"]\<close>: an edge without the attribute raises KeyError too.\<close>

definition edge_capacity :: "'n digraph \<Rightarrow> 'n \<Rightarrow> 'n \<Rightarrow> error + int" where
  "edge_capacity G u v =
     (case edge_attrs G u v of
        Inl e \<Rightarrow> Inl e
      | Inr d \<Rightarrow> (case capacity d of None \<Rightarrow> Inl KeyError | Some c \<Rightarrow> Inr c))"

text \<open>\<^verbatim>\<open>G.has_edge(u, v)\<close>.\<close>

definition has_edge :: "'n digraph \<Rightarrow> 'n \<Rightarrow> 'n \<Rightarrow> bool" where
  "has_edge G u v = (edges_of G (u, v) \<noteq> None)"

text \<open>\<^verbatim>\<open>G.successors(u)\<close>: NetworkX raises NetworkXError for a node not in the graph.\<close>

definition successors :: "'n digraph \<Rightarrow> 'n \<Rightarrow> error + 'n list" where
  "successors G u = (case map_of G u of None \<Rightarrow> Inl NetworkXError | Some nb \<Rightarrow> Inr (map fst nb))"

text \<open>
  \<^verbatim>\<open>G.predecessors(v)\<close>. The notebook only sums over the predecessors, so their order
  (NetworkX: the order in which the incoming edges were added) is taken from the node list.
\<close>

definition predecessors :: "'n digraph \<Rightarrow> 'n \<Rightarrow> error + 'n list" where
  "predecessors G v =
     (if has_node G v then Inr (filter (\<lambda>u. has_edge G u v) (map fst G)) else Inl NetworkXError)"

text \<open>\<^verbatim>\<open>G[u][v]["capacity"] = c\<close> on an existing edge.\<close>

definition set_capacity :: "'n digraph \<Rightarrow> 'n \<Rightarrow> 'n \<Rightarrow> int \<Rightarrow> 'n digraph" where
  "set_capacity G u v c =
     AList.map_entry u (AList.map_entry v (\<lambda>d. d\<lparr>capacity := Some c\<rparr>)) G"

definition add_node :: "'n digraph \<Rightarrow> 'n \<Rightarrow> 'n digraph" where
  "add_node G n = (if has_node G n then G else G @ [(n, [])])"

text \<open>\<^verbatim>\<open>datadict.update(attr)\<close>: the attributes given win.\<close>

definition update_attrs :: "edge_data \<Rightarrow> edge_data \<Rightarrow> edge_data" where
  "update_attrs old new =
     \<lparr>capacity = (case capacity new of None \<Rightarrow> capacity old | Some c \<Rightarrow> Some c),
      etype = (case etype new of None \<Rightarrow> etype old | Some s \<Rightarrow> Some s)\<rparr>"

text \<open>
  \<^verbatim>\<open>G.add_edge(u, v, **attr)\<close>: both end points become nodes, a new successor goes to
  the end of the successor dictionary of \<open>u\<close>, an existing edge has its attributes updated.
\<close>

definition add_edge :: "'n digraph \<Rightarrow> 'n \<Rightarrow> 'n \<Rightarrow> edge_data \<Rightarrow> 'n digraph" where
  "add_edge G u v d =
     AList.map_entry u
       (\<lambda>nb. AList.update v (case map_of nb v of None \<Rightarrow> d | Some old \<Rightarrow> update_attrs old d) nb)
       (add_node (add_node G u) v)"

text \<open>\<^verbatim>\<open>flow.get(k, 0)\<close>.\<close>

definition flow_get :: "'n flow \<Rightarrow> 'n \<times> 'n \<Rightarrow> int" where
  "flow_get flow k = (case map_of flow k of None \<Rightarrow> 0 | Some f \<Rightarrow> f)"

text \<open>The capacity of an edge read with a missing edge (or attribute) counting as 0.\<close>

definition cap0 :: "'n digraph \<Rightarrow> 'n \<Rightarrow> 'n \<Rightarrow> int" where
  "cap0 G u v = (case edge_capacity G u v of Inl e \<Rightarrow> 0 | Inr c \<Rightarrow> c)"

text \<open>Every edge of the graph carries a capacity.\<close>

definition all_capacities :: "'n digraph \<Rightarrow> bool" where
  "all_capacities G = list_all (\<lambda>(u, nb). list_all (\<lambda>(v, d). capacity d \<noteq> None) nb) G"

section \<open>The residual graph\<close>

text \<open>
  \<^verbatim>\<open>
  def residual_graph(G, flow):
      H = G.copy()
      for (u, v), f in flow.items():
          capacity = G[u][v]["capacity"]
          if f > G[u][v]["capacity"]:
              raise ValueError(...)
          H[u][v]["capacity"] -= f
          if H.has_edge(v, u):
              H[v][u]["capacity"] += f
          else:
              H.add_edge(v, u, capacity=f, etype="rev")
      return H
  \<close>
  The loop reads the capacities of \<open>G\<close> and updates \<open>H\<close>; \<open>residual_step\<close> is
  the part of the loop body that updates \<open>H\<close>.
\<close>

definition residual_step :: "'n digraph \<Rightarrow> 'n \<Rightarrow> 'n \<Rightarrow> int \<Rightarrow> error + 'n digraph" where
  "residual_step H u v f =
     (case edge_capacity H u v of
        Inl e \<Rightarrow> Inl e
      | Inr c \<Rightarrow>
          let H1 = set_capacity H u v (c - f) in
          if has_edge H1 v u then
            (case edge_capacity H1 v u of
               Inl e \<Rightarrow> Inl e
             | Inr c' \<Rightarrow> Inr (set_capacity H1 v u (c' + f)))
          else Inr (add_edge H1 v u \<lparr>capacity = Some f, etype = Some ''rev''\<rparr>))"

fun residual_edges :: "'n digraph \<Rightarrow> 'n digraph \<Rightarrow> 'n flow \<Rightarrow> error + 'n digraph" where
  "residual_edges G H [] = Inr H"
| "residual_edges G H (((u, v), f) # rest) =
     (case edge_capacity G u v of
        Inl e \<Rightarrow> Inl e
      | Inr cG \<Rightarrow>
          if f > cG then Inl ValueError
          else (case residual_step H u v f of
                  Inl e \<Rightarrow> Inl e
                | Inr H2 \<Rightarrow> residual_edges G H2 rest))"

text \<open>With graphs as values, \<^verbatim>\<open>H = G.copy()\<close> starts the loop at \<open>G\<close> itself.\<close>

definition residual_graph :: "'n digraph \<Rightarrow> 'n flow \<Rightarrow> error + 'n digraph" where
  "residual_graph G flow = residual_edges G G flow"

section \<open>Facts about the graph operations\<close>

lemma edges_of_add_node: "edges_of (add_node G n) = edges_of G"
  by (rule ext)
     (auto simp: edges_of_def add_node_def has_node_def map_add_def
           split: option.splits if_splits)

lemma has_node_add_node: "has_node (add_node G n) m = (has_node G m \<or> m = n)"
  by (auto simp: add_node_def has_node_def map_add_def split: option.splits)

lemma edges_of_set_capacity:
  "edges_of (set_capacity G u v c) =
     (case edges_of G (u, v) of
        None \<Rightarrow> edges_of G
      | Some d \<Rightarrow> (edges_of G)((u, v) \<mapsto> d\<lparr>capacity := Some c\<rparr>))"
  by (rule ext)
     (auto simp: edges_of_def set_capacity_def map_of_map_entry split: option.splits)

lemma edges_of_add_edge:
  "edges_of (add_edge G u v d) =
     (edges_of G)((u, v) \<mapsto>
        (case edges_of G (u, v) of None \<Rightarrow> d | Some old \<Rightarrow> update_attrs old d))"
proof -
  let ?G2 = "add_node (add_node G u) v"
  have n: "map_of ?G2 u \<noteq> None"
    using has_node_add_node [of "add_node G u" v u] has_node_add_node [of G u u]
    by (simp add: has_node_def)
  have e: "edges_of ?G2 = edges_of G"
    by (simp add: edges_of_add_node)
  show ?thesis
  proof (rule ext)
    fix x
    show "edges_of (add_edge G u v d) x =
      ((edges_of G)((u, v) \<mapsto>
        (case edges_of G (u, v) of None \<Rightarrow> d | Some old \<Rightarrow> update_attrs old d))) x"
      using n e [symmetric]
      by (cases x)
         (auto simp: add_edge_def edges_of_def map_of_map_entry update_conv'
               split: option.splits)
  qed
qed

lemma edge_capacity_edges_of:
  "edge_capacity G u v =
     (case edges_of G (u, v) of None \<Rightarrow> Inl KeyError
      | Some d \<Rightarrow> (case capacity d of None \<Rightarrow> Inl KeyError | Some c \<Rightarrow> Inr c))"
  by (simp add: edge_capacity_def edge_attrs_def split: option.splits)

lemma cap0_edges_of:
  "cap0 G u v =
     (case edges_of G (u, v) of None \<Rightarrow> 0
      | Some d \<Rightarrow> (case capacity d of None \<Rightarrow> 0 | Some c \<Rightarrow> c))"
  by (simp add: cap0_def edge_capacity_edges_of split: option.splits)

lemma residual_step_edges:
  assumes "residual_step H u v f = Inr H2"
  shows "\<exists>d d'. edges_of H (u, v) = Some d \<and> capacity d \<noteq> None \<and>
     (\<forall>e. edges_of H2 e =
        (if e = (v, u) then Some d'
         else if e = (u, v) then Some (d\<lparr>capacity := Some (cap0 H u v - f)\<rparr>)
         else edges_of H e))
     \<and> capacity d' = Some (cap0 H v u + f - (if u = v then f else 0))
     \<and> etype d' = (case edges_of H (v, u) of None \<Rightarrow> Some ''rev'' | Some d0 \<Rightarrow> etype d0)"
proof -
  from assms obtain d c where d: "edges_of H (u, v) = Some d" "capacity d = Some c"
    by (auto simp: residual_step_def edge_capacity_edges_of split: option.splits)
  have cap: "edge_capacity H u v = Inr c"
    by (simp add: edge_capacity_edges_of d)
  define H1 where "H1 = set_capacity H u v (c - f)"
  have e1: "edges_of H1 e =
      (if e = (u, v) then Some (d\<lparr>capacity := Some (c - f)\<rparr>) else edges_of H e)" for e
    by (simp add: H1_def edges_of_set_capacity d)
  have step: "(if has_edge H1 v u then
            (case edge_capacity H1 v u of
               Inl e \<Rightarrow> Inl e
             | Inr c' \<Rightarrow> Inr (set_capacity H1 v u (c' + f)))
          else Inr (add_edge H1 v u \<lparr>capacity = Some f, etype = Some ''rev''\<rparr>)) = Inr H2"
    using assms unfolding residual_step_def cap H1_def Let_def by simp
  show ?thesis
  proof (cases "has_edge H1 v u")
    case True
    then obtain d1 where d1: "edges_of H1 (v, u) = Some d1"
      by (auto simp: has_edge_def)
    with step True obtain c' where c': "capacity d1 = Some c'"
      and H2: "H2 = set_capacity H1 v u (c' + f)"
      by (auto simp: edge_capacity_edges_of split: option.splits)
    have e2: "edges_of H2 e =
        (if e = (v, u) then Some (d1\<lparr>capacity := Some (c' + f)\<rparr>) else edges_of H1 e)" for e
      by (simp add: H2 edges_of_set_capacity d1)
    show ?thesis
    proof (cases "u = v")
      case True
      with d1 c' have eq: "c' = c - f" "d1 = d\<lparr>capacity := Some (c - f)\<rparr>"
        by (auto simp: e1)
      from True d have dv: "edges_of H (v, v) = Some d" "capacity d = Some c" by simp_all
      show ?thesis
        by (rule exI [of _ d], rule exI [of _ "d1\<lparr>capacity := Some (c' + f)\<rparr>"])
           (simp add: cap0_edges_of e1 e2 True eq dv)
    next
      case False
      with d1 have dr: "edges_of H (v, u) = Some d1" by (simp add: e1)
      show ?thesis
        by (rule exI [of _ d], rule exI [of _ "d1\<lparr>capacity := Some (c' + f)\<rparr>"])
           (simp add: cap0_edges_of d e1 e2 c' False dr)
    qed
  next
    case False
    then have n1: "edges_of H1 (v, u) = None"
      by (simp add: has_edge_def)
    then have n: "edges_of H (v, u) = None" "u \<noteq> v"
      by (auto simp: e1 split: if_splits)
    from step False have H2: "H2 = add_edge H1 v u \<lparr>capacity = Some f, etype = Some ''rev''\<rparr>"
      by simp
    have e2: "edges_of H2 e =
       (if e = (v, u) then Some \<lparr>capacity = Some f, etype = Some ''rev''\<rparr> else edges_of H1 e)" for e
      by (simp add: H2 edges_of_add_edge n1)
    show ?thesis
      by (rule exI [of _ d], rule exI [of _ "\<lparr>capacity = Some f, etype = Some ''rev''\<rparr>"])
         (simp add: cap0_edges_of d e1 e2 n)
  qed
qed

text \<open>
  The net flow from \<open>x\<close> to \<open>y\<close> under a flow mapping, and whether the mapping has
  an entry for the pair in either direction.
\<close>

definition net_flow :: "'n flow \<Rightarrow> 'n \<Rightarrow> 'n \<Rightarrow> int" where
  "net_flow flow x y = flow_get flow (x, y) - flow_get flow (y, x)"

definition touches :: "'n flow \<Rightarrow> 'n \<Rightarrow> 'n \<Rightarrow> bool" where
  "touches flow x y = ((x, y) \<in> fst ` set flow \<or> (y, x) \<in> fst ` set flow)"

lemma flow_get_notin: "k \<notin> fst ` set flow \<Longrightarrow> flow_get flow k = 0"
proof -
  assume "k \<notin> fst ` set flow"
  then have "map_of flow k = None" by (simp add: map_of_eq_None_iff)
  then show ?thesis by (simp add: flow_get_def)
qed

lemma flow_get_Cons_add:
  "fst a \<notin> fst ` set rest \<Longrightarrow> flow_get (a # rest) k = flow_get [a] k + flow_get rest k"
proof -
  assume "fst a \<notin> fst ` set rest"
  then have "flow_get rest (fst a) = 0" by (rule flow_get_notin)
  then show ?thesis by (cases a) (simp add: flow_get_def)
qed

lemma net_flow_Cons:
  "fst a \<notin> fst ` set rest \<Longrightarrow> net_flow (a # rest) x y = net_flow [a] x y + net_flow rest x y"
  by (simp add: net_flow_def flow_get_Cons_add [of a rest])

lemma net_flow_untouched: "\<not> touches flow x y \<Longrightarrow> net_flow flow x y = 0"
  by (simp add: net_flow_def touches_def flow_get_notin)

lemma touches_Cons: "touches (a # rest) x y = (touches [a] x y \<or> touches rest x y)"
  by (auto simp: touches_def)

lemma touches_single:
  "touches [((u, v), f)] x y = ((x = u \<and> y = v) \<or> (x = v \<and> y = u))"
  by (auto simp: touches_def)

lemma cap0_Inr: "edge_capacity G u v = Inr c \<Longrightarrow> cap0 G u v = c"
  by (simp add: cap0_def)

lemma residual_step_untouched:
  assumes "residual_step H u v f = Inr H2" and "\<not> touches [((u, v), f)] x y"
  shows "edges_of H2 (x, y) = edges_of H (x, y)"
proof -
  from assms(2) have ne: "(x, y) \<noteq> (v, u)" "(x, y) \<noteq> (u, v)"
    unfolding touches_single by simp_all
  from residual_step_edges [OF assms(1)] obtain d d' where
    e: "\<forall>e. edges_of H2 e =
        (if e = (v, u) then Some d'
         else if e = (u, v) then Some (d\<lparr>capacity := Some (cap0 H u v - f)\<rparr>)
         else edges_of H e)"
    by (elim exE conjE)
  show ?thesis
    unfolding e [rule_format, of "(x, y)"] using ne by (simp only: if_False)
qed

lemma residual_step_touched:
  assumes "residual_step H u v f = Inr H2" and "touches [((u, v), f)] x y"
  shows "edge_capacity H2 x y = Inr (cap0 H x y - net_flow [((u, v), f)] x y)"
proof -
  from residual_step_edges [OF assms(1)] obtain d d' where
    d: "edges_of H (u, v) = Some d" "capacity d \<noteq> None"
    and e: "\<forall>e. edges_of H2 e =
        (if e = (v, u) then Some d'
         else if e = (u, v) then Some (d\<lparr>capacity := Some (cap0 H u v - f)\<rparr>)
         else edges_of H e)"
    and d': "capacity d' = Some (cap0 H v u + f - (if u = v then f else 0))"
    by (elim exE conjE)
  show ?thesis
  proof (cases "u = v")
    case True
    with assms(2) have x: "x = v" "y = v" unfolding touches_single by simp_all
    from d' True have c: "capacity d' = Some (cap0 H v v)" by simp
    have "edges_of H2 (v, v) = Some d'"
      unfolding e [rule_format, of "(v, v)"] using True by simp
    then show ?thesis
      unfolding x True by (simp add: edge_capacity_edges_of c net_flow_def)
  next
    case False
    then have uv: "u \<noteq> v" "v \<noteq> u" by auto
    from d' uv have c: "capacity d' = Some (cap0 H v u + f)" by simp
    from assms(2) have "(x = u \<and> y = v) \<or> (x = v \<and> y = u)"
      unfolding touches_single .
    then show ?thesis
    proof (elim disjE conjE)
      assume 1: "x = u" "y = v"
      have "edges_of H2 (u, v) = Some (d\<lparr>capacity := Some (cap0 H u v - f)\<rparr>)"
        unfolding e [rule_format, of "(u, v)"] using uv by simp
      then show ?thesis
        unfolding 1 using uv by (simp add: edge_capacity_edges_of net_flow_def flow_get_def)
    next
      assume 2: "x = v" "y = u"
      have "edges_of H2 (v, u) = Some d'"
        unfolding e [rule_format, of "(v, u)"] by simp
      then show ?thesis
        unfolding 2 using uv by (simp add: edge_capacity_edges_of net_flow_def flow_get_def c)
    qed
  qed
qed

lemma residual_edges_capacity:
  "distinct (map fst flow) \<Longrightarrow> residual_edges G H flow = Inr H' \<Longrightarrow>
   edge_capacity H' x y =
     (if touches flow x y then Inr (cap0 H x y - net_flow flow x y) else edge_capacity H x y)"
proof (induction flow arbitrary: H)
  case Nil
  then show ?case by (simp add: touches_def)
next
  case (Cons a rest)
  obtain u v f where a: "a = ((u, v), f)" by (cases a) auto
  from Cons.prems(2) obtain H2 where
    s: "residual_step H u v f = Inr H2" and r: "residual_edges G H2 rest = Inr H'"
    by (auto simp: a split: sum.splits if_splits)
  from Cons.prems(1) have dist: "distinct (map fst rest)" and nin: "fst a \<notin> fst ` set rest"
    by auto
  note ih = Cons.IH [OF dist r]
  show ?case
  proof (cases "touches [a] x y")
    case True
    from residual_step_touched [OF s True [unfolded a]]
    have c2: "cap0 H2 x y = cap0 H x y - net_flow [a] x y"
      "edge_capacity H2 x y = Inr (cap0 H x y - net_flow [a] x y)"
      by (simp_all add: cap0_def a)
    show ?thesis
      unfolding ih touches_Cons [of a rest] net_flow_Cons [OF nin] c2
      using True by (simp add: net_flow_untouched)
  next
    case False
    from residual_step_untouched [OF s False [unfolded a]]
    have c2: "edge_capacity H2 x y = edge_capacity H x y" "cap0 H2 x y = cap0 H x y"
      by (simp_all add: cap0_def edge_capacity_edges_of)
    show ?thesis
      unfolding ih touches_Cons [of a rest] net_flow_Cons [OF nin] c2
      using False by (simp add: net_flow_untouched)
  qed
qed

lemma residual_step_etype:
  assumes "residual_step H u v f = Inr H2" and "edges_of H2 e = Some d2"
  shows "etype d2 = (case edges_of H e of None \<Rightarrow> Some ''rev'' | Some d0 \<Rightarrow> etype d0)"
proof -
  from residual_step_edges [OF assms(1)] obtain d d' where
    d: "edges_of H (u, v) = Some d"
    and e: "\<forall>e. edges_of H2 e =
        (if e = (v, u) then Some d'
         else if e = (u, v) then Some (d\<lparr>capacity := Some (cap0 H u v - f)\<rparr>)
         else edges_of H e)"
    and d': "etype d' = (case edges_of H (v, u) of None \<Rightarrow> Some ''rev'' | Some d0 \<Rightarrow> etype d0)"
    by (elim exE conjE)
  note e2 = e [rule_format, of e]
  show ?thesis
  proof (cases "e = (v, u)")
    case True
    with assms(2) e2 have "d2 = d'" by simp
    with d' True show ?thesis by simp
  next
    case False
    show ?thesis
    proof (cases "e = (u, v)")
      case True
      with False assms(2) e2 have "d2 = d\<lparr>capacity := Some (cap0 H u v - f)\<rparr>" by simp
      with d True show ?thesis by simp
    next
      case F2: False
      with False assms(2) e2 have "edges_of H e = Some d2" by simp
      then show ?thesis by simp
    qed
  qed
qed

lemma residual_step_keeps_edges:
  assumes "residual_step H u v f = Inr H2" and "edges_of H e \<noteq> None"
  shows "edges_of H2 e \<noteq> None"
proof -
  from residual_step_edges [OF assms(1)] obtain d d' where
    e: "\<forall>e. edges_of H2 e =
        (if e = (v, u) then Some d'
         else if e = (u, v) then Some (d\<lparr>capacity := Some (cap0 H u v - f)\<rparr>)
         else edges_of H e)"
    by (elim exE conjE)
  show ?thesis
    unfolding e [rule_format, of e] using assms(2) by simp
qed

definition capacities_present :: "'n digraph \<Rightarrow> bool" where
  "capacities_present G = (\<forall>e d. edges_of G e = Some d \<longrightarrow> capacity d \<noteq> None)"

lemma capacities_presentD:
  "capacities_present G \<Longrightarrow> edges_of G e = Some d \<Longrightarrow> \<exists>c. capacity d = Some c"
  unfolding capacities_present_def by (cases e) auto

lemma residual_step_capacities_present:
  assumes "residual_step H u v f = Inr H2" and "capacities_present H"
  shows "capacities_present H2"
proof -
  from residual_step_edges [OF assms(1)] obtain d d' where
    e: "\<forall>e. edges_of H2 e =
        (if e = (v, u) then Some d'
         else if e = (u, v) then Some (d\<lparr>capacity := Some (cap0 H u v - f)\<rparr>)
         else edges_of H e)"
    and d': "capacity d' = Some (cap0 H v u + f - (if u = v then f else 0))"
    by (elim exE conjE)
  show ?thesis
    unfolding capacities_present_def
  proof (intro allI impI)
    fix e0 d0 assume a: "edges_of H2 e0 = Some d0"
    note e2 = e [rule_format, of e0]
    show "capacity d0 \<noteq> None"
    proof (cases "e0 = (v, u)")
      case True
      with a e2 have "d0 = d'" by simp
      with d' show ?thesis by simp
    next
      case False
      show ?thesis
      proof (cases "e0 = (u, v)")
        case True
        with False a e2 have "d0 = d\<lparr>capacity := Some (cap0 H u v - f)\<rparr>" by simp
        then show ?thesis by simp
      next
        case F2: False
        with False a e2 have "edges_of H e0 = Some d0" by simp
        with assms(2) show ?thesis by (auto dest: capacities_presentD)
      qed
    qed
  qed
qed

lemma residual_step_succeeds:
  assumes "capacities_present H" and "edges_of H (u, v) \<noteq> None"
  shows "\<exists>H2. residual_step H u v f = Inr H2"
proof -
  from assms obtain d c where d: "edges_of H (u, v) = Some d" "capacity d = Some c"
    by (auto dest: capacities_presentD)
  have cap: "edge_capacity H u v = Inr c"
    by (simp add: edge_capacity_edges_of d)
  define H1 where "H1 = set_capacity H u v (c - f)"
  have e1: "edges_of H1 e =
      (if e = (u, v) then Some (d\<lparr>capacity := Some (c - f)\<rparr>) else edges_of H e)" for e
    by (simp add: H1_def edges_of_set_capacity d)
  have step: "residual_step H u v f = (if has_edge H1 v u then
            (case edge_capacity H1 v u of
               Inl e \<Rightarrow> Inl e
             | Inr c' \<Rightarrow> Inr (set_capacity H1 v u (c' + f)))
          else Inr (add_edge H1 v u \<lparr>capacity = Some f, etype = Some ''rev''\<rparr>))"
    unfolding residual_step_def cap H1_def Let_def by simp
  show ?thesis
  proof (cases "has_edge H1 v u")
    case True
    then obtain d1 where d1: "edges_of H1 (v, u) = Some d1"
      by (auto simp: has_edge_def)
    have "capacity d1 \<noteq> None"
    proof (cases "u = v")
      case True
      from d1 e1 [of "(v, u)"] have "d1 = d\<lparr>capacity := Some (c - f)\<rparr>"
        unfolding True by simp
      then show ?thesis by simp
    next
      case False
      then have "(v, u) \<noteq> (u, v)" by simp
      with d1 e1 [of "(v, u)"] have "edges_of H (v, u) = Some d1" by simp
      with assms(1) show ?thesis by (auto dest: capacities_presentD)
    qed
    then obtain c' where "capacity d1 = Some c'" by auto
    with d1 have "edge_capacity H1 v u = Inr c'"
      by (simp add: edge_capacity_edges_of)
    with True show ?thesis unfolding step by simp
  next
    case False
    then show ?thesis unfolding step by simp
  qed
qed

lemma all_capacities_present: "all_capacities G \<Longrightarrow> capacities_present G"
  unfolding capacities_present_def all_capacities_def edges_of_def list_all_iff
  by (fastforce split: option.splits dest!: map_of_SomeD)

lemma residual_edges_succeeds:
  assumes "\<forall>((u, v), f) \<in> set flow. has_edge G u v \<and> f \<le> cap0 G u v"
    and "capacities_present G" and "capacities_present H"
    and "\<forall>e. edges_of G e \<noteq> None \<longrightarrow> edges_of H e \<noteq> None"
  shows "\<exists>H'. residual_edges G H flow = Inr H'"
  using assms
proof (induction flow arbitrary: H)
  case Nil
  then show ?case by simp
next
  case (Cons a rest)
  obtain u v f where a: "a = ((u, v), f)" by (cases a) auto
  from Cons.prems(1) have uv: "has_edge G u v" "f \<le> cap0 G u v"
    and rest: "\<forall>((u, v), f) \<in> set rest. has_edge G u v \<and> f \<le> cap0 G u v"
    by (simp_all add: a)
  from uv(1) obtain d where d: "edges_of G (u, v) = Some d" by (auto simp: has_edge_def)
  with Cons.prems(2) obtain c where c: "capacity d = Some c" by (auto dest: capacities_presentD)
  from d c have cap: "edge_capacity G u v = Inr c" "cap0 G u v = c"
    by (simp_all add: edge_capacity_edges_of cap0_edges_of)
  from d Cons.prems(4) have "edges_of H (u, v) \<noteq> None" by simp
  from residual_step_succeeds [OF Cons.prems(3) this]
  obtain H2 where s: "residual_step H u v f = Inr H2" by blast
  have p2: "capacities_present H2"
    using s Cons.prems(3) by (rule residual_step_capacities_present)
  have k2: "\<forall>e. edges_of G e \<noteq> None \<longrightarrow> edges_of H2 e \<noteq> None"
    using Cons.prems(4) residual_step_keeps_edges [OF s] by blast
  from Cons.IH [OF rest Cons.prems(2) p2 k2] obtain H' where "residual_edges G H2 rest = Inr H'"
    by blast
  with s cap uv(2) show ?case by (simp add: a)
qed

lemma residual_edges_etype:
  "residual_edges G H flow = Inr H' \<Longrightarrow> edges_of H' e = Some d' \<Longrightarrow>
   etype d' = (case edges_of H e of None \<Rightarrow> Some ''rev'' | Some d0 \<Rightarrow> etype d0)"
proof (induction flow arbitrary: H)
  case Nil
  then show ?case by simp
next
  case (Cons a rest)
  obtain u v f where a: "a = ((u, v), f)" by (cases a) auto
  from Cons.prems(1) obtain H2 where
    s: "residual_step H u v f = Inr H2" and r: "residual_edges G H2 rest = Inr H'"
    by (auto simp: a split: sum.splits if_splits)
  note ih = Cons.IH [OF r Cons.prems(2)]
  show ?case
  proof (cases "edges_of H2 e")
    case None
    with residual_step_keeps_edges [OF s, of e] have "edges_of H e = None"
      by (cases "edges_of H e") simp_all
    with ih None show ?thesis by simp
  next
    case (Some d2)
    from residual_step_etype [OF s Some] ih Some show ?thesis by simp
  qed
qed

lemma residual_edges_checks:
  "residual_edges G H flow = Inr H' \<Longrightarrow>
   \<forall>((u, v), f) \<in> set flow. has_edge G u v \<and> f \<le> cap0 G u v"
proof (induction flow arbitrary: H)
  case Nil
  then show ?case by simp
next
  case (Cons a rest)
  obtain u v f where a: "a = ((u, v), f)" by (cases a) auto
  from Cons.prems(1) obtain H2 c where
    c: "edge_capacity G u v = Inr c" "f \<le> c" and r: "residual_edges G H2 rest = Inr H'"
    by (auto simp: a split: sum.splits if_splits)
  from c have "has_edge G u v" "f \<le> cap0 G u v"
    by (auto simp: cap0_def has_edge_def edge_capacity_edges_of split: option.splits)
  with Cons.IH [OF r] show ?case by (simp add: a)
qed

lemma net_flow_swap: "net_flow flow v u = - net_flow flow u v"
  by (simp add: net_flow_def)

lemma touches_member: "((u, v), f) \<in> set flow \<Longrightarrow> touches flow u v \<and> touches flow v u"
  by (force simp: touches_def)

lemma flow_get_member:
  "distinct (map fst flow) \<Longrightarrow> (k, f) \<in> set flow \<Longrightarrow> flow_get flow k = f"
  by (simp add: flow_get_def)


section \<open>Example networks\<close>

definition cap_only :: "int \<Rightarrow> edge_data" where
  "cap_only c = \<lparr>capacity = Some c, etype = None\<rparr>"

definition rev_edge :: "int \<Rightarrow> edge_data" where
  "rev_edge c = \<lparr>capacity = Some c, etype = Some ''rev''\<rparr>"

definition ex_net :: "string digraph" where
  "ex_net =
     [(''s'', [(''a'', cap_only 10), (''b'', cap_only 5)]),
      (''a'', [(''t'', cap_only 5)]),
      (''b'', [(''t'', cap_only 10)]),
      (''t'', [])]"

definition ex_flow :: "string flow" where
  "ex_flow = [((''s'', ''a''), 3), ((''a'', ''t''), 3)]"

definition ex_residual :: "string digraph" where
  "ex_residual =
     [(''s'', [(''a'', cap_only 7), (''b'', cap_only 5)]),
      (''a'', [(''t'', cap_only 2), (''s'', rev_edge 3)]),
      (''b'', [(''t'', cap_only 10)]),
      (''t'', [(''a'', rev_edge 3)])]"

definition ex_anti :: "string digraph" where
  "ex_anti = [(''a'', [(''b'', cap_only 5)]), (''b'', [(''a'', cap_only 5)])]"

definition ex_anti_flow :: "string flow" where
  "ex_anti_flow = [((''a'', ''b''), 2), ((''b'', ''a''), 1)]"

definition ex_anti_residual :: "string digraph" where
  "ex_anti_residual = [(''a'', [(''b'', cap_only 4)]), (''b'', [(''a'', cap_only 6)])]"

lemmas graph_defs =
  has_node_def edges_of_def edge_attrs_def edge_capacity_def has_edge_def successors_def
  predecessors_def set_capacity_def add_node_def update_attrs_def add_edge_def flow_get_def
  cap0_def all_capacities_def cap_only_def rev_edge_def

lemma ex_residual_eval: "residual_graph ex_net ex_flow = Inr ex_residual"
  by (simp add: residual_graph_def residual_step_def ex_net_def ex_flow_def ex_residual_def
        graph_defs)

lemma ex_anti_residual_eval: "residual_graph ex_anti ex_anti_flow = Inr ex_anti_residual"
  by (simp add: residual_graph_def residual_step_def ex_anti_def ex_anti_flow_def
        ex_anti_residual_def graph_defs)


section \<open>Claims about the residual graph\<close>

text \<open>
  Claim C9. For a flow mapping that \<open>residual_graph\<close> accepts and every edge \<open>(u, v)\<close> of
  the mapping, both \<open>(u, v)\<close> and \<open>(v, u)\<close> are edges of the returned graph, and their
  capacities add up to the sum of the capacities of \<open>(u, v)\<close> and \<open>(v, u)\<close> in \<open>G\<close>, an
  edge missing from \<open>G\<close> counting as 0.
\<close>

theorem residual_graph_pair_sum:
  assumes "distinct (map fst flow)" and "residual_graph G flow = Inr H"
    and "((u, v), f) \<in> set flow"
  shows "\<exists>a b. edge_capacity H u v = Inr a \<and> edge_capacity H v u = Inr b \<and>
           a + b = cap0 G u v + cap0 G v u"
proof -
  from assms(2) have r: "residual_edges G G flow = Inr H" by (simp add: residual_graph_def)
  from touches_member [OF assms(3)] have t: "touches flow u v" "touches flow v u" by simp_all
  from residual_edges_capacity [OF assms(1) r, of u v] t
  have a: "edge_capacity H u v = Inr (cap0 G u v - net_flow flow u v)" by simp
  from residual_edges_capacity [OF assms(1) r, of v u] t
  have b: "edge_capacity H v u = Inr (cap0 G v u + net_flow flow u v)"
    by (simp add: net_flow_swap [of flow v u])
  show ?thesis unfolding a b by simp
qed


theorem residual_graph_pair_sum_witness:
  "residual_graph ex_net ex_flow = Inr ex_residual \<and>
   (\<exists>a b. edge_capacity ex_residual ''s'' ''a'' = Inr a \<and>
          edge_capacity ex_residual ''a'' ''s'' = Inr b \<and> a + b = 10)"
proof -
  have d: "distinct (map fst ex_flow)" by (simp add: ex_flow_def)
  have m: "((''s'', ''a''), 3) \<in> set ex_flow" by (simp add: ex_flow_def)
  have c: "cap0 ex_net ''s'' ''a'' + cap0 ex_net ''a'' ''s'' = 10"
    by (simp add: ex_net_def graph_defs)
  from residual_graph_pair_sum [OF d ex_residual_eval m] c ex_residual_eval
  show ?thesis by simp
qed


text \<open>
  Claim C1, as amended. When every edge of \<open>G\<close> carries a capacity and the flow mapping
  assigns to edges of \<open>G\<close> values not above their capacities, \<open>residual_graph\<close> returns a
  graph in which, for every edge \<open>(u, v)\<close> of the mapping with flow \<open>f\<close>, the capacity of
  \<open>(u, v)\<close> is \<open>capacity(u, v) - f + flow(v, u)\<close> and the capacity of \<open>(v, u)\<close> is
  \<open>capacity(v, u) + f - flow(v, u)\<close>, where a capacity or flow of a pair that is absent
  counts as 0; a reverse edge absent from \<open>G\<close> is created and marked \<open>rev\<close>. When the
  mapping has no entry for \<open>(v, u)\<close> and \<open>u \<noteq> v\<close> these are the values
  \<open>capacity(u, v) - f\<close> and \<open>capacity(v, u) + f\<close> of the original claim.
\<close>

theorem residual_graph_capacities:
  assumes "distinct (map fst flow)" and "all_capacities G"
    and "\<forall>((u, v), f) \<in> set flow. has_edge G u v \<and> f \<le> cap0 G u v"
  shows "\<exists>H. residual_graph G flow = Inr H \<and>
           (\<forall>((u, v), f) \<in> set flow.
              edge_capacity H u v = Inr (cap0 G u v - f + flow_get flow (v, u)) \<and>
              edge_capacity H v u = Inr (cap0 G v u + f - flow_get flow (v, u)) \<and>
              (\<not> has_edge G v u \<longrightarrow>
                 (\<exists>d. edges_of H (v, u) = Some d \<and> etype d = Some ''rev'')))"
proof -
  have p: "capacities_present G" using assms(2) by (rule all_capacities_present)
  from residual_edges_succeeds [OF assms(3) p p] obtain H where
    r: "residual_edges G G flow = Inr H" by blast
  have "edge_capacity H u v = Inr (cap0 G u v - f + flow_get flow (v, u)) \<and>
        edge_capacity H v u = Inr (cap0 G v u + f - flow_get flow (v, u)) \<and>
        (\<not> has_edge G v u \<longrightarrow> (\<exists>d. edges_of H (v, u) = Some d \<and> etype d = Some ''rev''))"
    if m: "((u, v), f) \<in> set flow" for u v f
  proof -
    from touches_member [OF m] have t: "touches flow u v" "touches flow v u" by simp_all
    have g: "flow_get flow (u, v) = f" using assms(1) m by (rule flow_get_member)
    from residual_edges_capacity [OF assms(1) r, of u v] t
    have a: "edge_capacity H u v = Inr (cap0 G u v - f + flow_get flow (v, u))"
      by (simp add: net_flow_def g)
    from residual_edges_capacity [OF assms(1) r, of v u] t
    have b: "edge_capacity H v u = Inr (cap0 G v u + f - flow_get flow (v, u))"
      by (simp add: net_flow_def g)
    from b obtain d where d: "edges_of H (v, u) = Some d"
      by (auto simp: edge_capacity_edges_of split: option.splits)
    from residual_edges_etype [OF r d]
    have "\<not> has_edge G v u \<longrightarrow> etype d = Some ''rev''"
      by (simp add: has_edge_def)
    with a b d show ?thesis by simp
  qed
  with r show ?thesis by (auto simp: residual_graph_def)
qed

theorem residual_graph_capacities_witness:
  "\<exists>H. residual_graph ex_anti ex_anti_flow = Inr H \<and>
       edge_capacity H ''a'' ''b'' = Inr 4 \<and> edge_capacity H ''b'' ''a'' = Inr 6"
proof -
  have d: "distinct (map fst ex_anti_flow)" by (simp add: ex_anti_flow_def)
  have c: "all_capacities ex_anti" by (simp add: ex_anti_def graph_defs)
  have h: "\<forall>((u, v), f) \<in> set ex_anti_flow. has_edge ex_anti u v \<and> f \<le> cap0 ex_anti u v"
    by (simp add: ex_anti_def ex_anti_flow_def graph_defs)
  from residual_graph_capacities [OF d c h] obtain H where
    r: "residual_graph ex_anti ex_anti_flow = Inr H" and
    b: "\<forall>((u, v), f) \<in> set ex_anti_flow.
              edge_capacity H u v = Inr (cap0 ex_anti u v - f + flow_get ex_anti_flow (v, u)) \<and>
              edge_capacity H v u = Inr (cap0 ex_anti v u + f - flow_get ex_anti_flow (v, u)) \<and>
              (\<not> has_edge ex_anti v u \<longrightarrow>
                 (\<exists>d. edges_of H (v, u) = Some d \<and> etype d = Some ''rev''))"
    by blast
  have m: "((''a'', ''b''), 2) \<in> set ex_anti_flow" by (simp add: ex_anti_flow_def)
  from bspec [OF b m]
  have "edge_capacity H ''a'' ''b'' = Inr 4 \<and> edge_capacity H ''b'' ''a'' = Inr 6"
    by (simp add: ex_anti_def ex_anti_flow_def graph_defs)
  with r show ?thesis by blast
qed


text \<open>
  The claim as first stated fails when the mapping carries flow in both directions of an
  antiparallel pair: with capacities 5 and 5 and flows 2 and 1 the residual capacities
  are 4 and 6, not \<open>5 - 2\<close> and \<open>5 + 2\<close>.
\<close>

theorem residual_graph_antiparallel_counterexample:
  "(0::int) \<le> 2 \<and> 2 \<le> cap0 ex_anti ''a'' ''b'' \<and> 0 \<le> (1::int) \<and> 1 \<le> cap0 ex_anti ''b'' ''a'' \<and>
   residual_graph ex_anti ex_anti_flow = Inr ex_anti_residual \<and>
   flow_get ex_anti_flow (''a'', ''b'') = 2 \<and>
   edge_capacity ex_anti_residual ''a'' ''b'' \<noteq> Inr (cap0 ex_anti ''a'' ''b'' - 2) \<and>
   edge_capacity ex_anti_residual ''b'' ''a'' \<noteq> Inr (cap0 ex_anti ''b'' ''a'' + 2)"
  using ex_anti_residual_eval
  by (simp add: ex_anti_def ex_anti_flow_def ex_anti_residual_def graph_defs)

section \<open>The residual graph as an object\<close>

text \<open>
  Whether \<^verbatim>\<open>residual_graph\<close> changes the graph it is given depends on which object
  the loop writes to. Here graphs live in a store of objects addressed by references;
  \<^verbatim>\<open>G.copy()\<close> allocates a new object holding the nodes, the edges and a copy of
  every attribute dictionary, the loop reads the capacities of the object \<open>g\<close> and
  writes to the object \<open>h\<close>, and the result is the reference \<open>h\<close>.
\<close>

record 'n heap =
  objs :: "nat \<Rightarrow> 'n digraph"
  next_ref :: nat

definition copy_graph :: "'n heap \<Rightarrow> nat \<Rightarrow> 'n heap \<times> nat" where
  "copy_graph st g =
     (st\<lparr>objs := (objs st)(next_ref st := objs st g), next_ref := Suc (next_ref st)\<rparr>,
      next_ref st)"

fun residual_loop_obj :: "'n heap \<Rightarrow> nat \<Rightarrow> nat \<Rightarrow> 'n flow \<Rightarrow> error + 'n heap" where
  "residual_loop_obj st g h [] = Inr st"
| "residual_loop_obj st g h (((u, v), f) # rest) =
     (case edge_capacity (objs st g) u v of
        Inl e \<Rightarrow> Inl e
      | Inr cG \<Rightarrow>
          if f > cG then Inl ValueError
          else (case residual_step (objs st h) u v f of
                  Inl e \<Rightarrow> Inl e
                | Inr H2 \<Rightarrow> residual_loop_obj (st\<lparr>objs := (objs st)(h := H2)\<rparr>) g h rest))"

definition residual_graph_obj :: "'n heap \<Rightarrow> nat \<Rightarrow> 'n flow \<Rightarrow> error + 'n heap \<times> nat" where
  "residual_graph_obj st g flow =
     (case copy_graph st g of
        (st1, h) \<Rightarrow>
          (case residual_loop_obj st1 g h flow of
             Inl e \<Rightarrow> Inl e
           | Inr st2 \<Rightarrow> Inr (st2, h)))"

lemma residual_loop_obj_result:
  "g \<noteq> h \<Longrightarrow> residual_loop_obj st g h flow = Inr st' \<Longrightarrow>
   \<exists>H'. residual_edges (objs st g) (objs st h) flow = Inr H' \<and>
        objs st' = (objs st)(h := H')"
proof (induction flow arbitrary: st)
  case Nil
  then show ?case by auto
next
  case (Cons a rest)
  obtain u v f where a: "a = ((u, v), f)" by (cases a) auto
  from Cons.prems(2) obtain cG H2 where
    c: "edge_capacity (objs st g) u v = Inr cG" "\<not> f > cG"
    and s: "residual_step (objs st h) u v f = Inr H2"
    and r: "residual_loop_obj (st\<lparr>objs := (objs st)(h := H2)\<rparr>) g h rest = Inr st'"
    by (auto simp: a split: sum.splits if_splits)
  define st2 where "st2 = st\<lparr>objs := (objs st)(h := H2)\<rparr>"
  have o2: "objs st2 g = objs st g" "objs st2 h = H2"
    "(objs st2)(h := H') = (objs st)(h := H')" for H'
    using Cons.prems(1) by (simp_all add: st2_def)
  from Cons.IH [OF Cons.prems(1) r [folded st2_def]] obtain H' where
    "residual_edges (objs st2 g) (objs st2 h) rest = Inr H'" "objs st' = (objs st2)(h := H')"
    by blast
  then have "residual_edges (objs st g) H2 rest = Inr H'" "objs st' = (objs st)(h := H')"
    unfolding o2 by simp_all
  with c s show ?case by (simp add: a)
qed


definition ex_heap :: "string heap" where
  "ex_heap = \<lparr>objs = (\<lambda>r. [])(0 := ex_net), next_ref = 1\<rparr>"


text \<open>
  Claim C7, as amended. \<open>residual_graph\<close> leaves the graph object it is given unchanged:
  it returns a reference to a new object, different from every object allocated before,
  no other object of the store changes, and the new object holds the residual graph
  computed from the input.
\<close>

theorem residual_graph_obj_fresh:
  assumes "g < next_ref st" and "residual_graph_obj st g flow = Inr (st', h)"
  shows "h = next_ref st \<and> h \<noteq> g \<and> (\<forall>r. r \<noteq> h \<longrightarrow> objs st' r = objs st r) \<and>
         objs st' g = objs st g \<and> residual_graph (objs st g) flow = Inr (objs st' h)"
proof -
  from assms(2) have h: "h = next_ref st"
    by (auto simp: residual_graph_obj_def copy_graph_def split: sum.splits)
  with assms(1) have ne: "g \<noteq> h" by simp
  define st1 where "st1 = st\<lparr>objs := (objs st)(h := objs st g), next_ref := Suc h\<rparr>"
  from assms(2) h have l: "residual_loop_obj st1 g h flow = Inr st'"
    by (auto simp: residual_graph_obj_def copy_graph_def st1_def split: sum.splits)
  have g1: "objs st1 g = objs st g" "objs st1 h = objs st g"
    using ne by (simp_all add: st1_def)
  from residual_loop_obj_result [OF ne l] obtain H' where
    r: "residual_edges (objs st g) (objs st g) flow = Inr H'"
    and s: "objs st' = (objs st1)(h := H')"
    unfolding g1 by auto
  from s ne have "objs st' g = objs st g" "objs st' h = H'"
    "\<forall>r. r \<noteq> h \<longrightarrow> objs st' r = objs st r"
    by (simp_all add: st1_def)
  with r h ne show ?thesis by (simp add: residual_graph_def)
qed


lemma ex_heap_eval:
  "case residual_graph_obj ex_heap 0 ex_flow of
     Inl e \<Rightarrow> False
   | Inr (st', h) \<Rightarrow> h = 1 \<and> objs st' 0 = ex_net \<and> objs st' 1 = ex_residual"
  by (simp add: residual_graph_obj_def copy_graph_def residual_step_def ex_heap_def
        ex_net_def ex_flow_def ex_residual_def graph_defs)


theorem residual_graph_obj_fresh_witness:
  "(0::nat) < next_ref ex_heap \<and>
   (\<exists>st'. residual_graph_obj ex_heap 0 ex_flow = Inr (st', 1) \<and>
      objs st' 0 = ex_net \<and> residual_graph ex_net ex_flow = Inr (objs st' 1))"
proof -
  have a: "(0::nat) < next_ref ex_heap" by (simp add: ex_heap_def)
  from ex_heap_eval obtain st' where
    r: "residual_graph_obj ex_heap 0 ex_flow = Inr (st', 1)"
    by (auto split: sum.splits)
  from residual_graph_obj_fresh [OF a r] a r show ?thesis
    by (auto simp: ex_heap_def)
qed


text \<open>
  The claim as first stated (the capacities of the object passed in change in place)
  fails: after the call the input object still has capacity 10 on the edge from \<open>s\<close> to
  \<open>a\<close>, and only the new object has the residual capacity 7.
\<close>

theorem residual_graph_obj_input_counterexample:
  "(case residual_graph_obj ex_heap 0 ex_flow of
      Inl e \<Rightarrow> False
    | Inr (st', h) \<Rightarrow>
        objs st' 0 = objs ex_heap 0 \<and>
        edge_capacity (objs st' 0) ''s'' ''a'' = Inr 10 \<and>
        edge_capacity (objs st' h) ''s'' ''a'' = Inr 7)"
  by (simp add: residual_graph_obj_def copy_graph_def residual_step_def ex_heap_def
        ex_net_def ex_flow_def ex_residual_def graph_defs)

section \<open>Checking a flow\<close>

text \<open>
  \<^verbatim>\<open>
  def check_valid_flow(G, flow, source_node, target_node):
      H = nx.DiGraph()
      H.add_edges_from(flow.keys())
      for (u, v), f in flow.items():
          capacity = G[u][v]["capacity"]
          H[u][v]["label"] = f"{f}/{capacity}"
          if f > G[u][v]["capacity"]:
              H[u][v]["edgecolor"] = "red"
              print(f"Invalid flow: capacity constraint violated for edge ({u!r}, {v!r})")
          if v not in {source_node, target_node}:
              incoming_flow = sum(
                  flow[(i, v)] if (i, v) in flow else 0 for i in G.predecessors(v))
              outgoing_flow = sum(
                  flow[(v, o)] if (v, o) in flow else 0 for o in G.successors(v))
              if not math.isclose(incoming_flow, outgoing_flow):
                  print(f"Invalid flow: flow conservation violated at node {v}")
                  H.nodes[v]["color"] = "red"
      return H
  \<close>
  The function reports in two ways: it prints a message, and it colours the edge or the
  node red in the graph \<open>H\<close> it returns. The model returns both: the graph \<open>H\<close> and the list
  of the messages printed. The nodes and edges of \<open>H\<close> are those that
  \<^verbatim>\<open>add_edges_from\<close> builds from the keys of the flow mapping, so its edges are grouped
  by their tail node; the attributes that the loop sets are kept in three maps, and the
  label of an edge is the pair of numbers that the source formats as \<^verbatim>\<open>f/capacity\<close>.
\<close>

datatype 'n message = CapacityViolated 'n 'n | ConservationViolated 'n

record 'n flow_graph =
  fg_graph :: "'n digraph"
  label :: "'n \<times> 'n \<Rightarrow> (int \<times> int) option"
  edgecolor :: "'n \<times> 'n \<Rightarrow> string option"
  color :: "'n \<Rightarrow> string option"

text \<open>\<^verbatim>\<open>H.add_edges_from(es)\<close>: \<^verbatim>\<open>add_edge\<close> without attributes, edge by edge.\<close>

definition add_edges_from :: "'n digraph \<Rightarrow> ('n \<times> 'n) list \<Rightarrow> 'n digraph" where
  "add_edges_from H es =
     fold (\<lambda>(u, v) H'. add_edge H' u v \<lparr>capacity = None, etype = None\<rparr>) es H"

subsection \<open>Closeness of two integers\<close>

text \<open>
  \<^verbatim>\<open>math.isclose(a, b)\<close> works on doubles. An integer argument is converted first:
  it is rounded to 53 significant bits, to the nearest double and to the even one of two
  equally near, and the conversion raises OverflowError when the rounded magnitude
  reaches \<open>2^1024\<close>. A double that holds an integer is written as that integer here.
\<close>

fun bit_length :: "nat \<Rightarrow> nat" where
  "bit_length n = (if n = 0 then 0 else Suc (bit_length (n div 2)))"

declare bit_length.simps [simp del]

definition round_half_even :: "nat \<Rightarrow> nat \<Rightarrow> nat" where
  "round_half_even n e =
     (let q = n div 2 ^ e; r = n mod 2 ^ e
      in if 2 * r > 2 ^ e \<or> (2 * r = 2 ^ e \<and> odd q) then q + 1 else q)"

definition round53 :: "nat \<Rightarrow> nat" where
  "round53 n = (let e = bit_length n - 53 in round_half_even n e * 2 ^ e)"

definition to_double :: "int \<Rightarrow> error + int" where
  "to_double n =
     (let m = round53 (nat \<bar>n\<bar>)
      in if m \<ge> 2 ^ 1024 then Inl OverflowError else Inr (sgn n * int m))"

text \<open>
  With the default tolerances (relative \<open>1e-09\<close>, absolute 0) the library function is
  \<^verbatim>\<open>
  if (a == b) return 1;
  if (isinf(a) || isinf(b)) return 0;
  diff = fabs(b - a);
  return (diff <= fabs(rel_tol * b)) || (diff <= fabs(rel_tol * a)) || (diff <= abs_tol);
  \<close>
  The double nearest to \<open>1e-09\<close> is \<open>4835703278458517 / 2^82\<close>, so a product
  \<^verbatim>\<open>rel_tol * b\<close> is the rounded product of the two integers, divided by \<open>2^82\<close>. The
  difference of two doubles is rounded as well and is infinite from \<open>2^1024\<close> on, where
  no comparison holds. An argument converted from an integer is never infinite, and with
  an absolute tolerance of 0 the last comparison holds only for equal arguments.
\<close>

definition rel_tol :: nat where
  "rel_tol = 4835703278458517"

definition isclose :: "int \<Rightarrow> int \<Rightarrow> error + bool" where
  "isclose a b =
     (case to_double a of
        Inl e \<Rightarrow> Inl e
      | Inr x \<Rightarrow>
          (case to_double b of
             Inl e \<Rightarrow> Inl e
           | Inr y \<Rightarrow>
               if x = y then Inr True
               else
                 let diff = round53 (nat \<bar>y - x\<bar>)
                 in Inr (diff < 2 ^ 1024 \<and>
                         (diff * 2 ^ 82 \<le> round53 (rel_tol * nat \<bar>y\<bar>) \<or>
                          diff * 2 ^ 82 \<le> round53 (rel_tol * nat \<bar>x\<bar>)))))"

lemma bit_length_le: "n < 2 ^ k \<Longrightarrow> bit_length n \<le> k"
proof (induction k arbitrary: n)
  case 0
  then show ?case by (simp add: bit_length.simps)
next
  case (Suc k)
  show ?case
  proof (cases "n = 0")
    case True
    then show ?thesis by (simp add: bit_length.simps)
  next
    case False
    from Suc.prems have "n div 2 < 2 ^ k" by simp
    from Suc.IH [OF this] False show ?thesis by (subst bit_length.simps) simp
  qed
qed

lemma bit_length_eq:
  "0 < k \<Longrightarrow> 2 ^ (k - 1) \<le> n \<Longrightarrow> n < 2 ^ k \<Longrightarrow> bit_length n = k"
proof (induction k arbitrary: n)
  case 0
  then show ?case by simp
next
  case (Suc k)
  from Suc.prems have n0: "n \<noteq> 0" by auto
  show ?case
  proof (cases "k = 0")
    case True
    with Suc.prems have "n = 1" by simp
    then show ?thesis using True by (simp add: bit_length.simps)
  next
    case False
    from Suc.prems False have "2 ^ (k - 1) \<le> n div 2" "n div 2 < 2 ^ k"
      by (cases k; simp)+
    with Suc.IH [of "n div 2"] False have "bit_length (n div 2) = k" by simp
    with n0 show ?thesis by (subst bit_length.simps) simp
  qed
qed

lemma round53_small: "n < 2 ^ 53 \<Longrightarrow> round53 n = n"
proof -
  assume "n < 2 ^ 53"
  from bit_length_le [OF this] have "bit_length n - 53 = 0" by simp
  then show ?thesis by (simp add: round53_def round_half_even_def)
qed

lemma round53_le: "round53 n \<le> n + 2 ^ (bit_length n - 53)"
proof -
  define e where "e = bit_length n - 53"
  have "round_half_even n e \<le> n div 2 ^ e + 1" by (simp add: round_half_even_def Let_def)
  then have "round_half_even n e * 2 ^ e \<le> (n div 2 ^ e + 1) * 2 ^ e" by (rule mult_le_mono1)
  also have "\<dots> = n div 2 ^ e * 2 ^ e + 2 ^ e" by (simp add: algebra_simps)
  also have "\<dots> \<le> n + 2 ^ e" by simp
  finally show ?thesis by (simp add: round53_def e_def Let_def)
qed

lemma round53_rel_tol:
  assumes "k < 1000000000"
  shows "round53 (rel_tol * k) < 2 ^ 82"
proof -
  from assms have k: "k \<le> 999999999" by simp
  have "rel_tol * k \<le> rel_tol * 999999999" using k by (rule mult_le_mono2)
  then have n: "rel_tol * k \<le> 4835703273622813721541483" by (simp add: rel_tol_def)
  then have "rel_tol * k < 2 ^ 82" by simp
  from bit_length_le [OF this] have "bit_length (rel_tol * k) - 53 \<le> 29" by simp
  then have "(2::nat) ^ (bit_length (rel_tol * k) - 53) \<le> 2 ^ 29" by (rule power_increasing) simp
  with round53_le [of "rel_tol * k"] n show ?thesis by simp
qed

lemma to_double_small: "\<bar>a\<bar> < 2 ^ 53 \<Longrightarrow> to_double a = Inr a"
proof -
  assume a: "\<bar>a\<bar> < 2 ^ 53"
  then have "nat \<bar>a\<bar> < 2 ^ 53" by simp
  from round53_small [OF this] have r: "round53 (nat \<bar>a\<bar>) = nat \<bar>a\<bar>" .
  have "nat \<bar>a\<bar> < 2 ^ 1024" using a by simp
  then show ?thesis by (simp add: to_double_def r mult_sgn_abs)
qed

text \<open>Below \<open>10^9\<close> in magnitude the conversions are exact and being close is being equal.\<close>

lemma isclose_small:
  assumes "\<bar>a\<bar> < 1000000000" and "\<bar>b\<bar> < 1000000000"
  shows "isclose a b = Inr (a = b)"
proof (cases "a = b")
  case True
  with assms have "to_double b = Inr b" by (intro to_double_small) simp
  with True show ?thesis by (simp add: isclose_def)
next
  case False
  from assms have da: "to_double a = Inr a" and db: "to_double b = Inr b"
    by (simp_all add: to_double_small)
  from assms have "nat \<bar>b - a\<bar> < 2 ^ 53" by simp
  from round53_small [OF this] have d: "round53 (nat \<bar>b - a\<bar>) = nat \<bar>b - a\<bar>" .
  from False have "1 \<le> nat \<bar>b - a\<bar>" by simp
  then have "1 * 2 ^ 82 \<le> nat \<bar>b - a\<bar> * 2 ^ 82" by (rule mult_le_mono1)
  then have big: "(2::nat) ^ 82 \<le> nat \<bar>b - a\<bar> * 2 ^ 82" by simp
  from assms have "nat \<bar>a\<bar> < 1000000000" "nat \<bar>b\<bar> < 1000000000" by simp_all
  then have "round53 (rel_tol * nat \<bar>a\<bar>) < 2 ^ 82" "round53 (rel_tol * nat \<bar>b\<bar>) < 2 ^ 82"
    by (simp_all only: round53_rel_tol)
  with big have "\<not> nat \<bar>b - a\<bar> * 2 ^ 82 \<le> round53 (rel_tol * nat \<bar>b\<bar>)"
    "\<not> nat \<bar>b - a\<bar> * 2 ^ 82 \<le> round53 (rel_tol * nat \<bar>a\<bar>)"
    by linarith+
  with False show ?thesis by (simp add: isclose_def da db d)
qed

text \<open>
  Beyond that the two differ: \<open>10^18\<close> and \<open>10^18 - 10^9 - 1\<close> are further apart than
  \<open>10^9\<close> parts of the larger and still close, because the smaller is rounded to
  \<open>10^18 - 10^9\<close>; and \<open>2^1024\<close> has no double.
\<close>

lemma isclose_beyond_tolerance:
  "isclose 1000000000000000000 999999998999999999 = Inr True"
proof -
  have b: "bit_length 1000000000000000000 = 60" "bit_length 999999998999999999 = 60"
    "bit_length 1000000000 = 30"
    by (rule bit_length_eq; simp)+
  have x: "to_double 1000000000000000000 = Inr 1000000000000000000"
    by (simp add: to_double_def round53_def round_half_even_def b)
  have y: "to_double 999999998999999999 = Inr 999999999000000000"
    by (simp add: to_double_def round53_def round_half_even_def b)
  have d: "round53 1000000000 = 1000000000"
    by (simp add: round53_def round_half_even_def b)
  have "bit_length (rel_tol * 999999999000000000) = 112"
    by (rule bit_length_eq; simp add: rel_tol_def)
  then have p: "round53 (rel_tol * 999999999000000000) = 4835703273622813996826939604598784"
    by (simp add: round53_def round_half_even_def rel_tol_def)
  have "bit_length (rel_tol * 1000000000000000000) = 112"
    by (rule bit_length_eq; simp add: rel_tol_def)
  then have q: "round53 (rel_tol * 1000000000000000000) = 4835703278458517275285456303423488"
    by (simp add: round53_def round_half_even_def rel_tol_def)
  show ?thesis
    by (simp add: isclose_def x y d p q)
qed

lemma isclose_overflow: "isclose (2 ^ 1024) 0 = Inl OverflowError"
proof -
  have "bit_length (2 ^ 1024) = 1025" by (rule bit_length_eq; simp)
  then have "to_double (2 ^ 1024) = Inl OverflowError"
    by (simp add: to_double_def round53_def round_half_even_def)
  then show ?thesis by (simp add: isclose_def)
qed

subsection \<open>The loop\<close>

definition incoming_flow :: "'n digraph \<Rightarrow> 'n flow \<Rightarrow> 'n \<Rightarrow> error + int" where
  "incoming_flow G flow v =
     (case predecessors G v of
        Inl e \<Rightarrow> Inl e
      | Inr ps \<Rightarrow> Inr (sum_list (map (\<lambda>i. flow_get flow (i, v)) ps)))"

definition outgoing_flow :: "'n digraph \<Rightarrow> 'n flow \<Rightarrow> 'n \<Rightarrow> error + int" where
  "outgoing_flow G flow v =
     (case successors G v of
        Inl e \<Rightarrow> Inl e
      | Inr ss \<Rightarrow> Inr (sum_list (map (\<lambda>w. flow_get flow (v, w)) ss)))"

fun check_loop ::
  "'n digraph \<Rightarrow> 'n flow \<Rightarrow> 'n \<Rightarrow> 'n \<Rightarrow> 'n flow \<Rightarrow> 'n flow_graph \<times> 'n message list \<Rightarrow>
   error + 'n flow_graph \<times> 'n message list" where
  "check_loop G flow s t [] (H, out) = Inr (H, out)"
| "check_loop G flow s t (((u, v), f) # rest) (H, out) =
     (case edge_capacity G u v of
        Inl e \<Rightarrow> Inl e
      | Inr c \<Rightarrow>
          let H1 = H\<lparr>label := (label H)((u, v) \<mapsto> (f, c))\<rparr>;
              (H2, out2) =
                 (if f > c
                  then (H1\<lparr>edgecolor := (edgecolor H1)((u, v) \<mapsto> ''red'')\<rparr>,
                        out @ [CapacityViolated u v])
                  else (H1, out))
          in
          if v \<noteq> s \<and> v \<noteq> t then
            (case incoming_flow G flow v of
               Inl e \<Rightarrow> Inl e
             | Inr incoming \<Rightarrow>
                 (case outgoing_flow G flow v of
                    Inl e \<Rightarrow> Inl e
                  | Inr outgoing \<Rightarrow>
                      (case isclose incoming outgoing of
                         Inl e \<Rightarrow> Inl e
                       | Inr close \<Rightarrow>
                           if \<not> close
                           then check_loop G flow s t rest
                                  (H2\<lparr>color := (color H2)(v \<mapsto> ''red'')\<rparr>,
                                   out2 @ [ConservationViolated v])
                           else check_loop G flow s t rest (H2, out2))))
          else check_loop G flow s t rest (H2, out2))"

definition check_valid_flow ::
  "'n digraph \<Rightarrow> 'n flow \<Rightarrow> 'n \<Rightarrow> 'n \<Rightarrow> error + 'n flow_graph \<times> 'n message list" where
  "check_valid_flow G flow s t =
     check_loop G flow s t flow
       (\<lparr>fg_graph = add_edges_from [] (map fst flow), label = Map.empty,
         edgecolor = Map.empty, color = Map.empty\<rparr>, [])"

text \<open>
  What the loop has reported when it returns: a capacity violation for the edges whose
  flow is above the capacity, a conservation violation for the heads, other than source
  and target, at which the two sums were found not close.
\<close>

definition capacity_exceeded :: "'n digraph \<Rightarrow> 'n flow \<Rightarrow> 'n \<Rightarrow> 'n \<Rightarrow> bool" where
  "capacity_exceeded G items u v = (\<exists>f. ((u, v), f) \<in> set items \<and> f > cap0 G u v)"

definition found_not_close :: "'n digraph \<Rightarrow> 'n flow \<Rightarrow> 'n \<Rightarrow> bool" where
  "found_not_close G flow v =
     (\<exists>a b. incoming_flow G flow v = Inr a \<and> outgoing_flow G flow v = Inr b \<and>
        isclose a b = Inr False)"

definition head_of :: "'n flow \<Rightarrow> 'n \<Rightarrow> bool" where
  "head_of items v = (\<exists>u f. ((u, v), f) \<in> set items)"

lemma check_loop_reports:
  "check_loop G flow s t items (H, out) = Inr (H', out') \<Longrightarrow>
   (CapacityViolated u v \<in> set out' \<longleftrightarrow>
      CapacityViolated u v \<in> set out \<or> capacity_exceeded G items u v) \<and>
   (edgecolor H' (u, v) = Some ''red'' \<longleftrightarrow>
      edgecolor H (u, v) = Some ''red'' \<or> capacity_exceeded G items u v) \<and>
   (ConservationViolated w \<in> set out' \<longleftrightarrow>
      ConservationViolated w \<in> set out \<or>
      (head_of items w \<and> w \<noteq> s \<and> w \<noteq> t \<and> found_not_close G flow w)) \<and>
   (color H' w = Some ''red'' \<longleftrightarrow>
      color H w = Some ''red'' \<or>
      (head_of items w \<and> w \<noteq> s \<and> w \<noteq> t \<and> found_not_close G flow w))"
proof (induction items arbitrary: H out)
  case Nil
  then show ?case by (simp add: capacity_exceeded_def head_of_def)
next
  case (Cons a rest)
  obtain x y f where a: "a = ((x, y), f)" by (cases a) auto
  from Cons.prems obtain c where c: "edge_capacity G x y = Inr c"
    by (auto simp: a split: sum.splits)
  then have c0: "cap0 G x y = c" by (simp add: cap0_def)
  define H1 where "H1 = H\<lparr>label := (label H)((x, y) \<mapsto> (f, c))\<rparr>"
  define H2 where "H2 = (if f > c then H1\<lparr>edgecolor := (edgecolor H1)((x, y) \<mapsto> ''red'')\<rparr> else H1)"
  define out2 where "out2 = (if f > c then out @ [CapacityViolated x y] else out)"
  define viol where "viol = (y \<noteq> s \<and> y \<noteq> t \<and> found_not_close G flow y)"
  define H3 where "H3 = (if viol then H2\<lparr>color := (color H2)(y \<mapsto> ''red'')\<rparr> else H2)"
  define out3 where "out3 = (if viol then out2 @ [ConservationViolated y] else out2)"
  have r: "check_loop G flow s t rest (H3, out3) = Inr (H', out')"
    using Cons.prems
    by (auto simp: a c H1_def H2_def out2_def H3_def out3_def viol_def found_not_close_def Let_def
        split: sum.splits if_splits)
  note ih = Cons.IH [OF r]
  have ce: "capacity_exceeded G (a # rest) u v \<longleftrightarrow>
      ((u, v) = (x, y) \<and> f > c) \<or> capacity_exceeded G rest u v"
    using c0 by (auto simp: capacity_exceeded_def a)
  have ho: "head_of (a # rest) w \<longleftrightarrow> w = y \<or> head_of rest w"
    by (auto simp: head_of_def a)
  have o3: "CapacityViolated u v \<in> set out3 \<longleftrightarrow>
      CapacityViolated u v \<in> set out \<or> ((u, v) = (x, y) \<and> f > c)"
    "ConservationViolated w \<in> set out3 \<longleftrightarrow>
      ConservationViolated w \<in> set out \<or> (w = y \<and> viol)"
    by (auto simp: out3_def out2_def)
  have h3: "edgecolor H3 (u, v) = Some ''red'' \<longleftrightarrow>
      edgecolor H (u, v) = Some ''red'' \<or> ((u, v) = (x, y) \<and> f > c)"
    "color H3 w = Some ''red'' \<longleftrightarrow> color H w = Some ''red'' \<or> (w = y \<and> viol)"
    by (auto simp: H3_def H2_def H1_def)
  show ?case
    using ih unfolding ce ho o3 h3 viol_def by blast
qed

text \<open>
  The keys of the mapping \<open>(s, a)\<close>, \<open>(a, t)\<close>, \<open>(s, b)\<close>, in this order, give \<open>H\<close> the
  nodes \<open>s\<close>, \<open>a\<close>, \<open>t\<close>, \<open>b\<close> and the edges \<open>(s, a)\<close>, \<open>(s, b)\<close>, \<open>(a, t)\<close>.
\<close>

lemma add_edges_from_example:
  "map (\<lambda>(u, nb). (u, map fst nb))
     (add_edges_from [] [(''s'', ''a''), (''a'', ''t''), (''s'', ''b'')]) =
   [(''s'', [''a'', ''b'']), (''a'', [''t'']), (''t'', []), (''b'', [])]"
  by (simp add: add_edges_from_def graph_defs)

subsection \<open>Well-formed graphs and small numbers\<close>

definition nodes_closed :: "'n digraph \<Rightarrow> bool" where
  "nodes_closed G = list_all (\<lambda>(u, nb). list_all (\<lambda>(v, d). has_node G v) nb) G"

text \<open>
  The node dictionary and the successor dictionaries have distinct keys, and every
  successor is a node.
\<close>

definition wf_graph :: "'n digraph \<Rightarrow> bool" where
  "wf_graph G =
     (distinct (map fst G) \<and> list_all (\<lambda>(u, nb). distinct (map fst nb)) G \<and> nodes_closed G)"

text \<open>
  The total flow into and out of a node, as the flow mapping gives them, and the sum of
  the absolute values of all flows.
\<close>

definition flow_into :: "'n flow \<Rightarrow> 'n \<Rightarrow> int" where
  "flow_into flow v = sum_list (map (\<lambda>((i, w), f). if w = v then f else 0) flow)"

definition flow_out_of :: "'n flow \<Rightarrow> 'n \<Rightarrow> int" where
  "flow_out_of flow v = sum_list (map (\<lambda>((i, w), f). if i = v then f else 0) flow)"

definition total_abs :: "'n flow \<Rightarrow> int" where
  "total_abs flow = sum_list (map (\<lambda>(e, f). \<bar>f\<bar>) flow)"

text \<open>
  The flows add up to less than \<open>10^9\<close> in absolute value, so that every sum the loop
  compares is converted exactly, and the capacities of the edges of the mapping are
  below \<open>10^9\<close> in magnitude too, far inside the range of integers that every version of
  the interpreter formats into the label.
\<close>

definition small_numbers :: "'n digraph \<Rightarrow> 'n flow \<Rightarrow> bool" where
  "small_numbers G flow =
     (total_abs flow < 1000000000 \<and>
      list_all (\<lambda>((u, v), f). \<bar>cap0 G u v\<bar> < 1000000000) flow)"

lemma nodes_closedD: "nodes_closed G \<Longrightarrow> edges_of G (u, v) = Some d \<Longrightarrow> has_node G v"
  unfolding nodes_closed_def edges_of_def list_all_iff
  by (fastforce split: option.splits dest!: map_of_SomeD)

lemma edge_capacity_has_edge: "edge_capacity G u v = Inr c \<Longrightarrow> \<exists>d. edges_of G (u, v) = Some d"
  by (auto simp: edge_capacity_edges_of split: option.splits)

lemma flows_of_node:
  "has_node G v \<Longrightarrow> \<exists>a b. incoming_flow G flow v = Inr a \<and> outgoing_flow G flow v = Inr b"
  by (auto simp: incoming_flow_def outgoing_flow_def predecessors_def successors_def has_node_def)

lemma sum_list_delta:
  "distinct ks \<Longrightarrow>
   sum_list (map (\<lambda>k. if k = k0 then c else 0) ks) = (if k0 \<in> set ks then c else (0::int))"
  by (induction ks) auto

lemma flow_get_sum:
  assumes "distinct ks"
  shows "distinct (map fst flow) \<Longrightarrow>
    sum_list (map (flow_get flow) ks) =
    sum_list (map (\<lambda>(k, f). if k \<in> set ks then f else 0) flow)"
proof (induction flow)
  case Nil
  show ?case by (simp add: flow_get_def)
next
  case (Cons a rest)
  obtain k0 f0 where a: "a = (k0, f0)" by (cases a)
  from Cons.prems have n: "fst a \<notin> fst ` set rest" and d: "distinct (map fst rest)"
    by simp_all
  have s: "flow_get [a] k = (if k = k0 then f0 else 0)" for k
    by (simp add: flow_get_def a)
  have e: "flow_get (a # rest) k = (if k = k0 then f0 else 0) + flow_get rest k" for k
    using flow_get_Cons_add [of a rest k, OF n] s [of k] by simp
  have "sum_list (map (flow_get (a # rest)) ks) =
      sum_list (map (\<lambda>k. if k = k0 then f0 else 0) ks) + sum_list (map (flow_get rest) ks)"
    unfolding e by (simp add: sum_list_addf)
  also have "\<dots> = (if k0 \<in> set ks then f0 else 0) +
      sum_list (map (\<lambda>(k, f). if k \<in> set ks then f else 0) rest)"
    by (simp only: sum_list_delta [OF assms] Cons.IH [OF d])
  finally show ?case by (simp add: a)
qed

lemma flow_get_sum_bound:
  assumes "distinct ks" and "distinct (map fst flow)"
  shows "\<bar>sum_list (map (flow_get flow) ks)\<bar> \<le> total_abs flow"
proof -
  define g where "g = (\<lambda>(k, f :: int). if k \<in> set ks then f else 0)"
  have "\<bar>sum_list (map g flow)\<bar> \<le> sum_list (map abs (map g flow))" by (rule sum_list_abs)
  also have "\<dots> = sum_list (map (\<lambda>x. \<bar>g x\<bar>) flow)" by (simp add: o_def)
  also have "\<dots> \<le> sum_list (map (\<lambda>(e, f). \<bar>f\<bar>) flow)"
    by (rule sum_list_mono) (auto simp: g_def)
  finally show ?thesis
    unfolding flow_get_sum [OF assms] total_abs_def g_def .
qed

lemma predecessors_distinct: "wf_graph G \<Longrightarrow> predecessors G v = Inr ps \<Longrightarrow> distinct ps"
  by (auto simp: wf_graph_def predecessors_def split: if_splits)

lemma successors_distinct: "wf_graph G \<Longrightarrow> successors G v = Inr ss \<Longrightarrow> distinct ss"
  by (auto simp: wf_graph_def successors_def list_all_iff split: option.splits
      dest!: map_of_SomeD)

lemma incoming_flow_bounded:
  assumes "wf_graph G" and "distinct (map fst flow)" and "incoming_flow G flow v = Inr a"
  shows "\<bar>a\<bar> \<le> total_abs flow"
proof -
  from assms(3) obtain ps where ps: "predecessors G v = Inr ps"
    and a: "a = sum_list (map (\<lambda>i. flow_get flow (i, v)) ps)"
    by (auto simp: incoming_flow_def split: sum.splits)
  from predecessors_distinct [OF assms(1) ps] have "distinct (map (\<lambda>i. (i, v)) ps)"
    by (simp add: distinct_map inj_on_def)
  from flow_get_sum_bound [OF this assms(2)] show ?thesis by (simp add: a o_def)
qed

lemma outgoing_flow_bounded:
  assumes "wf_graph G" and "distinct (map fst flow)" and "outgoing_flow G flow v = Inr b"
  shows "\<bar>b\<bar> \<le> total_abs flow"
proof -
  from assms(3) obtain ss where ss: "successors G v = Inr ss"
    and b: "b = sum_list (map (\<lambda>w. flow_get flow (v, w)) ss)"
    by (auto simp: outgoing_flow_def split: sum.splits)
  from successors_distinct [OF assms(1) ss] have "distinct (map (\<lambda>w. (v, w)) ss)"
    by (simp add: distinct_map inj_on_def)
  from flow_get_sum_bound [OF this assms(2)] show ?thesis by (simp add: b o_def)
qed

lemma flows_compared:
  assumes "wf_graph G" and "distinct (map fst flow)" and "total_abs flow < 1000000000"
    and "has_node G v"
  shows "\<exists>a b. incoming_flow G flow v = Inr a \<and> outgoing_flow G flow v = Inr b \<and>
           isclose a b = Inr (a = b)"
proof -
  from flows_of_node [OF assms(4), of flow] obtain a b where
    a: "incoming_flow G flow v = Inr a" and b: "outgoing_flow G flow v = Inr b" by blast
  from incoming_flow_bounded [OF assms(1,2) a] assms(3) have "\<bar>a\<bar> < 1000000000" by simp
  moreover from outgoing_flow_bounded [OF assms(1,2) b] assms(3) have "\<bar>b\<bar> < 1000000000"
    by simp
  ultimately have "isclose a b = Inr (a = b)" by (rule isclose_small)
  with a b show ?thesis by blast
qed

lemma check_loop_succeeds:
  assumes "wf_graph G" and "distinct (map fst flow)" and "total_abs flow < 1000000000"
  shows "\<forall>((u, v), f) \<in> set items. \<exists>c. edge_capacity G u v = Inr c \<Longrightarrow>
         \<exists>H' out'. check_loop G flow s t items (H, out) = Inr (H', out')"
proof (induction items arbitrary: H out)
  case Nil
  then show ?case by simp
next
  case (Cons a rest)
  obtain x y f where a: "a = ((x, y), f)" by (cases a) auto
  from Cons.prems obtain c where c: "edge_capacity G x y = Inr c"
    and rest: "\<forall>((u, v), f) \<in> set rest. \<exists>c. edge_capacity G u v = Inr c"
    by (auto simp: a)
  from assms(1) have nc: "nodes_closed G" by (simp add: wf_graph_def)
  from edge_capacity_has_edge [OF c] nodes_closedD [OF nc] have "has_node G y" by blast
  from flows_compared [OF assms this] obtain i j where
    io: "incoming_flow G flow y = Inr i" "outgoing_flow G flow y = Inr j"
      "isclose i j = Inr (i = j)" by blast
  note ih = Cons.IH [OF rest]
  show ?case
    unfolding a by (simp add: c io Let_def ih)
qed

lemma check_loop_key_error:
  assumes "wf_graph G" and "distinct (map fst flow)" and "total_abs flow < 1000000000"
  shows "\<exists>((u, v), f) \<in> set items. \<not> has_edge G u v \<Longrightarrow>
         check_loop G flow s t items (H, out) = Inl KeyError"
proof (induction items arbitrary: H out)
  case Nil
  then show ?case by simp
next
  case (Cons a rest)
  obtain x y f where a: "a = ((x, y), f)" by (cases a) auto
  show ?case
  proof (cases "edge_capacity G x y")
    case (Inl e)
    then have "e = KeyError" by (auto simp: edge_capacity_edges_of split: option.splits)
    with Inl show ?thesis by (simp add: a)
  next
    case (Inr c)
    from edge_capacity_has_edge [OF Inr] have he: "has_edge G x y" by (auto simp: has_edge_def)
    with Cons.prems have rest: "\<exists>((u, v), f) \<in> set rest. \<not> has_edge G u v" by (auto simp: a)
    from assms(1) have nc: "nodes_closed G" by (simp add: wf_graph_def)
    from edge_capacity_has_edge [OF Inr] nodes_closedD [OF nc] have "has_node G y" by blast
    from flows_compared [OF assms this] obtain i j where
      io: "incoming_flow G flow y = Inr i" "outgoing_flow G flow y = Inr j"
        "isclose i j = Inr (i = j)" by blast
    note ih = Cons.IH [OF rest]
    show ?thesis
      unfolding a by (simp add: Inr io Let_def ih)
  qed
qed

lemma has_edge_tail: "has_edge G u v \<Longrightarrow> u \<in> fst ` set G"
  by (force simp: has_edge_def edges_of_def split: option.splits dest: map_of_SomeD)

lemma incoming_flow_total:
  assumes "wf_graph G" and "distinct (map fst flow)"
    and "\<forall>((u, v), f) \<in> set flow. has_edge G u v" and "has_node G v"
  shows "incoming_flow G flow v = Inr (flow_into flow v)"
proof -
  define ps where "ps = filter (\<lambda>u. has_edge G u v) (map fst G)"
  define ks where "ks = map (\<lambda>i. (i, v)) ps"
  have p: "predecessors G v = Inr ps" using assms(4) by (simp add: predecessors_def ps_def)
  from predecessors_distinct [OF assms(1) p] have d: "distinct ks"
    by (simp add: ks_def distinct_map inj_on_def)
  have m: "((i, w) \<in> set ks) = (w = v)" if "((i, w), f) \<in> set flow" for i w f
  proof -
    from assms(3) that have he: "has_edge G i w" by blast
    from has_edge_tail [OF this] he show ?thesis by (auto simp: ks_def ps_def)
  qed
  have "map (\<lambda>(k, f). if k \<in> set ks then f else 0) flow =
        map (\<lambda>((i, w), f). if w = v then f else 0) flow"
    by (rule map_cong [OF refl]) (auto simp: m)
  with flow_get_sum [OF d assms(2)]
  have "sum_list (map (flow_get flow) ks) = flow_into flow v" by (simp add: flow_into_def)
  then show ?thesis by (simp add: incoming_flow_def p ks_def o_def)
qed

lemma outgoing_flow_total:
  assumes "wf_graph G" and "distinct (map fst flow)"
    and "\<forall>((u, v), f) \<in> set flow. has_edge G u v" and "has_node G v"
  shows "outgoing_flow G flow v = Inr (flow_out_of flow v)"
proof -
  from assms(4) obtain nb where nb: "map_of G v = Some nb" by (auto simp: has_node_def)
  define ks where "ks = map (\<lambda>w. (v, w)) (map fst nb)"
  have p: "successors G v = Inr (map fst nb)" by (simp add: successors_def nb)
  from successors_distinct [OF assms(1) p] have d: "distinct ks"
    by (simp add: ks_def distinct_map inj_on_def)
  have m: "((i, w) \<in> set ks) = (i = v)" if "((i, w), f) \<in> set flow" for i w f
  proof (cases "i = v")
    case True
    from assms(3) that have "has_edge G i w" by blast
    with True nb have "map_of nb w \<noteq> None" by (simp add: has_edge_def edges_of_def)
    then have "w \<in> fst ` set nb" by (simp add: map_of_eq_None_iff)
    with True show ?thesis by (auto simp: ks_def)
  next
    case False
    then show ?thesis by (auto simp: ks_def)
  qed
  have "map (\<lambda>(k, f). if k \<in> set ks then f else 0) flow =
        map (\<lambda>((i, w), f). if i = v then f else 0) flow"
    by (rule map_cong [OF refl]) (auto simp: m)
  with flow_get_sum [OF d assms(2)]
  have "sum_list (map (flow_get flow) ks) = flow_out_of flow v" by (simp add: flow_out_of_def)
  then show ?thesis by (simp add: outgoing_flow_def p ks_def o_def)
qed

lemma found_not_close_totals:
  assumes "wf_graph G" and "distinct (map fst flow)" and "total_abs flow < 1000000000"
    and "\<forall>((u, v), f) \<in> set flow. has_edge G u v" and "has_node G v"
  shows "found_not_close G flow v = (flow_into flow v \<noteq> flow_out_of flow v)"
proof -
  note i = incoming_flow_total [OF assms(1,2,4,5)]
  note j = outgoing_flow_total [OF assms(1,2,4,5)]
  from flows_compared [OF assms(1,2,3,5)] i j
  have "isclose (flow_into flow v) (flow_out_of flow v) =
      Inr (flow_into flow v = flow_out_of flow v)" by simp
  then show ?thesis by (simp add: found_not_close_def i j)
qed

text \<open>
  A flow of \<open>2^1024\<close> into \<open>a\<close> makes the comparison at \<open>a\<close> raise OverflowError, before
  the loop reaches the second edge, which is not in the graph.
\<close>

lemma check_valid_flow_overflow_example:
  "check_valid_flow ex_net [((''s'', ''a''), 2 ^ 1024), ((''a'', ''z''), 1)] ''s'' ''t'' =
     Inl OverflowError"
  using isclose_overflow
  by (simp add: check_valid_flow_def incoming_flow_def outgoing_flow_def ex_net_def graph_defs)

definition ex_bad_flow :: "string flow" where
  "ex_bad_flow = [((''s'', ''a''), 30), ((''a'', ''t''), 3)]"

text \<open>
  Claim C5, as amended. For a well-formed graph \<open>G\<close> and a flow mapping of small integers
  over edges of \<open>G\<close> that carry a capacity, \<open>check_valid_flow\<close> returns, and it has
  reported a capacity violation for an edge \<open>(u, v)\<close> (printed the message, coloured the
  edge) exactly when the mapping assigns \<open>(u, v)\<close> a flow above its capacity; a negative
  flow is not reported. For every node \<open>v\<close> that is the head of an edge of the mapping
  it has reported a conservation violation at \<open>v\<close> (printed the message, coloured the
  node) exactly when \<open>v\<close> is neither source nor target and the flows of the mapping
  into \<open>v\<close> and out of \<open>v\<close> add up to different totals.
\<close>

theorem check_valid_flow_reports:
  assumes "wf_graph G" and "distinct (map fst flow)" and "small_numbers G flow"
    and "\<forall>((u, v), f) \<in> set flow. \<exists>c. edge_capacity G u v = Inr c"
  shows "\<exists>H out. check_valid_flow G flow s t = Inr (H, out) \<and>
     (\<forall>u v. (CapacityViolated u v \<in> set out) = capacity_exceeded G flow u v) \<and>
     (\<forall>u v. (edgecolor H (u, v) = Some ''red'') = capacity_exceeded G flow u v) \<and>
     (\<forall>v. head_of flow v \<longrightarrow>
        (ConservationViolated v \<in> set out) =
        (v \<noteq> s \<and> v \<noteq> t \<and> flow_into flow v \<noteq> flow_out_of flow v)) \<and>
     (\<forall>v. head_of flow v \<longrightarrow>
        (color H v = Some ''red'') =
        (v \<noteq> s \<and> v \<noteq> t \<and> flow_into flow v \<noteq> flow_out_of flow v))"
proof -
  define H0 :: "'a flow_graph" where
    "H0 = \<lparr>fg_graph = add_edges_from [] (map fst flow), label = Map.empty,
           edgecolor = Map.empty, color = Map.empty\<rparr>"
  from assms(3) have small: "total_abs flow < 1000000000" by (simp add: small_numbers_def)
  from check_loop_succeeds [OF assms(1,2) small assms(4), of s t H0 "[]"] obtain H out where
    r: "check_loop G flow s t flow (H0, []) = Inr (H, out)" by blast
  from assms(1) have nc: "nodes_closed G" by (simp add: wf_graph_def)
  have he: "\<forall>((u, v), f) \<in> set flow. has_edge G u v"
    using assms(4) by (fastforce simp: has_edge_def dest: edge_capacity_has_edge)
  have fnc: "found_not_close G flow w = (flow_into flow w \<noteq> flow_out_of flow w)"
    if "head_of flow w" for w
  proof -
    from that obtain u f where "((u, w), f) \<in> set flow" by (auto simp: head_of_def)
    with he have "has_edge G u w" by blast
    with nodes_closedD [OF nc] have "has_node G w" by (auto simp: has_edge_def)
    from found_not_close_totals [OF assms(1,2) small he this] show ?thesis .
  qed
  have "(CapacityViolated u v \<in> set out) = capacity_exceeded G flow u v"
    "(edgecolor H (u, v) = Some ''red'') = capacity_exceeded G flow u v"
    "head_of flow w \<longrightarrow>
      (ConservationViolated w \<in> set out) =
      (w \<noteq> s \<and> w \<noteq> t \<and> flow_into flow w \<noteq> flow_out_of flow w)"
    "head_of flow w \<longrightarrow>
      (color H w = Some ''red'') =
      (w \<noteq> s \<and> w \<noteq> t \<and> flow_into flow w \<noteq> flow_out_of flow w)"
    for u v w
    using check_loop_reports [OF r, of u v w] fnc [of w] by (auto simp: H0_def)
  with r show ?thesis
    unfolding check_valid_flow_def H0_def [symmetric] by blast
qed

theorem check_valid_flow_reports_witness:
  "wf_graph ex_net \<and> distinct (map fst ex_bad_flow) \<and> small_numbers ex_net ex_bad_flow \<and>
   (\<exists>H out. check_valid_flow ex_net ex_bad_flow ''s'' ''t'' = Inr (H, out) \<and>
      CapacityViolated ''s'' ''a'' \<in> set out \<and> CapacityViolated ''a'' ''t'' \<notin> set out \<and>
      ConservationViolated ''a'' \<in> set out \<and> ConservationViolated ''t'' \<notin> set out)"
proof -
  have n: "wf_graph ex_net" "distinct (map fst ex_bad_flow)" "small_numbers ex_net ex_bad_flow"
    by (simp_all add: wf_graph_def nodes_closed_def small_numbers_def total_abs_def
          ex_bad_flow_def ex_net_def graph_defs)
  have c: "\<forall>((u, v), f) \<in> set ex_bad_flow. \<exists>c. edge_capacity ex_net u v = Inr c"
    by (simp add: ex_bad_flow_def ex_net_def graph_defs)
  have e: "capacity_exceeded ex_net ex_bad_flow ''s'' ''a''"
    "\<not> capacity_exceeded ex_net ex_bad_flow ''a'' ''t''"
    by (simp_all add: capacity_exceeded_def ex_bad_flow_def ex_net_def graph_defs)
  have h: "head_of ex_bad_flow ''a''" "head_of ex_bad_flow ''t''"
    by (simp_all add: head_of_def ex_bad_flow_def)
  have v: "flow_into ex_bad_flow ''a'' \<noteq> flow_out_of ex_bad_flow ''a''"
    by (simp add: flow_into_def flow_out_of_def ex_bad_flow_def)
  from check_valid_flow_reports [OF n c, of "''s''" "''t''"] n e h v show ?thesis
    by auto
qed

text \<open>
  The claim as first stated fails for a negative flow: \<open>0 \<le> flow(u, v)\<close> does not hold
  for the flow \<open>-1\<close> on the edge from \<open>s\<close> to \<open>a\<close>, and no capacity violation is reported.
\<close>

theorem check_valid_flow_negative_counterexample:
  "\<not> (0 \<le> (- 1 :: int)) \<and>
   (case check_valid_flow ex_net [((''s'', ''a''), - 1)] ''s'' ''t'' of
      Inl e \<Rightarrow> False
    | Inr (H, out) \<Rightarrow>
        CapacityViolated ''s'' ''a'' \<notin> set out \<and> edgecolor H (''s'', ''a'') = None)"
  by (simp add: check_valid_flow_def incoming_flow_def outgoing_flow_def isclose_small
        ex_net_def graph_defs)

section \<open>The level graph\<close>

text \<open>
  \<^verbatim>\<open>
  def level_bfs(R, flow, source_node, target_node):
      parents, level = {}, {}
      queue = deque([source_node])
      level[source_node] = 0
      while queue:
          if target_node in parents:
              break
          u = queue.popleft()
          for v in R.successors(u):
              if (v not in parents) and (R[u][v]["capacity"] > 0):
                  parents[v] = u
                  level[v] = level[u] + 1
                  queue.append(v)
      return parents, level
  \<close>
  The state of the loop is the two dictionaries and the queue. \<open>scan\<close> is the inner
  \<^verbatim>\<open>for\<close> loop over the successors of \<open>u\<close>; it reads \<^verbatim>\<open>level[u]\<close> at every
  assignment, as the source does. \<open>level_loop\<close> is the \<^verbatim>\<open>while\<close> loop. The argument
  \<^verbatim>\<open>flow\<close> is not used by the source.
\<close>

type_synonym 'n bfs_state = "('n \<Rightarrow> 'n option) \<times> ('n \<Rightarrow> int option) \<times> 'n list"

fun scan :: "'n digraph \<Rightarrow> 'n \<Rightarrow> 'n list \<Rightarrow> 'n bfs_state \<Rightarrow> error + 'n bfs_state" where
  "scan R u [] st = Inr st"
| "scan R u (v # vs) (parents, level, queue) =
     (if parents v = None then
        (case edge_capacity R u v of
           Inl e \<Rightarrow> Inl e
         | Inr c \<Rightarrow>
             if c > 0 then
               (case level u of
                  None \<Rightarrow> Inl KeyError
                | Some l \<Rightarrow> scan R u vs (parents(v \<mapsto> u), level(v \<mapsto> l + 1), queue @ [v]))
             else scan R u vs (parents, level, queue))
      else scan R u vs (parents, level, queue))"

text \<open>
  The loop terminates: every iteration takes one node from the queue, and a node enters
  the queue only when it enters \<open>parents\<close>, which can happen once for each of the finitely
  many successors in the graph.
\<close>

definition heads :: "'n digraph \<Rightarrow> 'n set" where
  "heads R = (\<Union>(u, nb) \<in> set R. fst ` set nb)"

lemma finite_heads: "finite (heads R)"
  by (auto simp: heads_def)

lemma successors_heads: "successors R u = Inr vs \<Longrightarrow> set vs \<subseteq> heads R"
  by (auto simp: successors_def heads_def split: option.splits dest!: map_of_SomeD)

lemma scan_measure:
  "scan R u vs (p, l, q) = Inr (p', l', q') \<Longrightarrow> set vs \<subseteq> A \<Longrightarrow> finite A \<Longrightarrow>
   card (A - dom p') + length q' = card (A - dom p) + length q"
proof (induction vs arbitrary: p l q)
  case Nil
  then show ?case by simp
next
  case (Cons v vs)
  show ?case
  proof (cases "p v = None \<and> (\<exists>c. edge_capacity R u v = Inr c \<and> c > 0)")
    case True
    then obtain c where c: "edge_capacity R u v = Inr c" "c > 0" and n: "p v = None" by blast
    from Cons.prems(1) n c obtain lu where lu: "l u = Some lu"
      and r: "scan R u vs (p(v \<mapsto> u), l(v \<mapsto> lu + 1), q @ [v]) = Inr (p', l', q')"
      by (auto split: option.splits)
    from Cons.prems(2) have vs: "set vs \<subseteq> A" and vA: "v \<in> A" by auto
    have d: "dom (p(v \<mapsto> u)) = insert v (dom p)" by simp
    from Cons.IH [OF r vs Cons.prems(3)]
    have e: "card (A - dom p') + length q' = card (A - insert v (dom p)) + Suc (length q)"
      unfolding d by simp
    from vA n have m: "v \<in> A - dom p" by auto
    have "A - insert v (dom p) = (A - dom p) - {v}" by blast
    then have c1: "card (A - insert v (dom p)) = card (A - dom p) - 1"
      using m by (simp add: card_Diff_singleton)
    from m Cons.prems(3) have "card (A - dom p) > 0"
      unfolding card_gt_0_iff by blast
    with e c1 show ?thesis by simp
  next
    case False
    with Cons.prems(1) have r: "scan R u vs (p, l, q) = Inr (p', l', q')"
      by (auto split: sum.splits if_splits)
    from Cons.prems(2) have vs: "set vs \<subseteq> A" by auto
    from Cons.IH [OF r vs Cons.prems(3)] show ?thesis .
  qed
qed

function level_loop ::
  "'n digraph \<Rightarrow> 'n \<Rightarrow> 'n bfs_state \<Rightarrow> error + ('n \<Rightarrow> 'n option) \<times> ('n \<Rightarrow> int option)" where
  "level_loop R t (parents, level, queue) =
     (case queue of
        [] \<Rightarrow> Inr (parents, level)
      | u # q \<Rightarrow>
          if parents t \<noteq> None then Inr (parents, level)
          else (case successors R u of
                  Inl e \<Rightarrow> Inl e
                | Inr vs \<Rightarrow>
                    (case scan R u vs (parents, level, q) of
                       Inl e \<Rightarrow> Inl e
                     | Inr st \<Rightarrow> level_loop R t st)))"
  by pat_completeness auto

termination
proof (relation "measure (\<lambda>(R, t, p, l, q). card (heads R - dom p) + length q)")
  show "wf (measure (\<lambda>(R, t, p, l, q). card (heads R - dom p) + length q))" by simp
next
  fix R :: "'n digraph" and t parents level queue u q vs st
  assume "queue = u # q" and "successors R u = Inr vs"
    and s: "scan R u vs (parents, level, q) = Inr st"
  obtain p' l' q' where st: "st = (p', l', q')" by (cases st) auto
  from scan_measure [OF s [unfolded st] successors_heads finite_heads, of R] \<open>successors R u = Inr vs\<close>
  have "card (heads R - dom p') + length q' = card (heads R - dom parents) + length q"
    by simp
  with \<open>queue = u # q\<close> show "((R, t, st), R, t, parents, level, queue)
       \<in> measure (\<lambda>(R, t, p, l, q). card (heads R - dom p) + length q)"
    by (simp add: st)
qed

definition level_bfs ::
  "'n digraph \<Rightarrow> 'n flow \<Rightarrow> 'n \<Rightarrow> 'n \<Rightarrow> error + ('n \<Rightarrow> 'n option) \<times> ('n \<Rightarrow> int option)" where
  "level_bfs R flow s t = level_loop R t (Map.empty, [s \<mapsto> 0], [s])"


text \<open>
  An edge is traversable when its residual capacity is positive; \<open>hops R s n v\<close> says
  that \<open>v\<close> is reached from \<open>s\<close> by a walk of exactly \<open>n\<close> traversable edges.
\<close>

definition pos_edge :: "'n digraph \<Rightarrow> 'n \<Rightarrow> 'n \<Rightarrow> bool" where
  "pos_edge R u v = (case edge_capacity R u v of Inl e \<Rightarrow> False | Inr c \<Rightarrow> c > 0)"

fun hops :: "'n digraph \<Rightarrow> 'n \<Rightarrow> nat \<Rightarrow> 'n \<Rightarrow> bool" where
  "hops R s 0 v = (v = s)"
| "hops R s (Suc n) v = list_ex (\<lambda>u. hops R s n u \<and> pos_edge R u v) (map fst R)"

definition expanded :: "'n digraph \<Rightarrow> ('n \<Rightarrow> 'n option) \<Rightarrow> 'n \<Rightarrow> bool" where
  "expanded R p x = (\<forall>y. pos_edge R x y \<longrightarrow> y \<in> dom p)"

lemma pos_edge_node: "pos_edge R u v \<Longrightarrow> u \<in> fst ` set R"
  by (auto simp: pos_edge_def edge_capacity_def edge_attrs_def edges_of_def
      split: sum.splits option.splits dest!: map_of_SomeD intro: rev_image_eqI)

lemma pos_edge_successor:
  assumes "pos_edge R u v" and "successors R u = Inr vs"
  shows "v \<in> set vs"
proof -
  from assms(1) obtain nb d where nb: "map_of R u = Some nb" "map_of nb v = Some d"
    by (auto simp: pos_edge_def edge_capacity_def edge_attrs_def edges_of_def
        split: sum.splits option.splits)
  from nb(2) have "v \<in> fst ` set nb"
    by (metis domI dom_map_of_conv_image_fst)
  moreover from assms(2) nb(1) have "vs = map fst nb" by (simp add: successors_def)
  ultimately show ?thesis by simp
qed

lemma hops_Suc: "hops R s (Suc n) v = (\<exists>u. hops R s n u \<and> pos_edge R u v)"
  using pos_edge_node [of R _ v] by (auto simp: list_ex_iff)

lemma scan_effect:
  "scan R u vs (p, l, q) = Inr (p', l', q') \<Longrightarrow>
   \<exists>new. q' = q @ new \<and> dom p' = dom p \<union> set new \<and> dom l' = dom l \<union> set new \<and>
     set new \<inter> dom p = {} \<and> (\<forall>y \<in> set new. pos_edge R u y \<and> p' y = Some u) \<and>
     (\<forall>y. y \<notin> set new \<longrightarrow> p' y = p y) \<and>
     (\<forall>y \<in> set vs. pos_edge R u y \<longrightarrow> y \<in> dom p')"
proof (induction vs arbitrary: p l q)
  case Nil
  then show ?case by auto
next
  case (Cons v vs)
  show ?case
  proof (cases "p v = None \<and> pos_edge R u v")
    case True
    then obtain c where c: "edge_capacity R u v = Inr c" "c > 0" and n: "p v = None"
      by (auto simp: pos_edge_def split: sum.splits)
    from Cons.prems n c obtain lu where lu: "l u = Some lu"
      and r: "scan R u vs (p(v \<mapsto> u), l(v \<mapsto> lu + 1), q @ [v]) = Inr (p', l', q')"
      by (auto split: option.splits)
    from Cons.IH [OF r] obtain new where
      q: "q' = (q @ [v]) @ new" and
      dp: "dom p' = dom (p(v \<mapsto> u)) \<union> set new" and
      dl: "dom l' = dom (l(v \<mapsto> lu + 1)) \<union> set new" and
      dj: "set new \<inter> dom (p(v \<mapsto> u)) = {}" and
      pe: "\<forall>y \<in> set new. pos_edge R u y \<and> p' y = Some u" and
      un: "\<forall>y. y \<notin> set new \<longrightarrow> p' y = (p(v \<mapsto> u)) y" and
      ex: "\<forall>y \<in> set vs. pos_edge R u y \<longrightarrow> y \<in> dom p'"
      by blast
    from dj have vn: "v \<notin> set new" by auto
    with un have pv: "p' v = Some u" by simp
    have "q' = q @ (v # new)" using q by simp
    moreover have "dom p' = dom p \<union> set (v # new)" using dp by auto
    moreover have "dom l' = dom l \<union> set (v # new)" using dl by auto
    moreover have "set (v # new) \<inter> dom p = {}" using dj n by auto
    moreover have "\<forall>y \<in> set (v # new). pos_edge R u y \<and> p' y = Some u"
      using pe pv True by auto
    moreover have "\<forall>y. y \<notin> set (v # new) \<longrightarrow> p' y = p y" using un by auto
    moreover have "\<forall>y \<in> set (v # vs). pos_edge R u y \<longrightarrow> y \<in> dom p'"
      using ex pv by auto
    ultimately show ?thesis by blast
  next
    case False
    with Cons.prems have r: "scan R u vs (p, l, q) = Inr (p', l', q')"
      by (auto simp: pos_edge_def split: sum.splits if_splits)
    from Cons.IH [OF r] obtain new where
      n: "q' = q @ new" "dom p' = dom p \<union> set new" "dom l' = dom l \<union> set new"
      "set new \<inter> dom p = {}" "\<forall>y \<in> set new. pos_edge R u y \<and> p' y = Some u"
      "\<forall>y. y \<notin> set new \<longrightarrow> p' y = p y"
      "\<forall>y \<in> set vs. pos_edge R u y \<longrightarrow> y \<in> dom p'"
      by blast
    from False n(2) have "pos_edge R u v \<longrightarrow> v \<in> dom p'" by auto
    with n show ?thesis by auto
  qed
qed

text \<open>
  The invariant of the \<^verbatim>\<open>while\<close> loop after its first iteration. A node is expanded
  when all its traversable successors have a parent. The function \<open>g\<close> records the length
  of the walk along which a node was discovered, and \<open>b\<close> is that length for the node
  dequeued last. The source has a parent as soon as a traversable edge leads back to it,
  so it is treated separately.
\<close>

definition bfs_inv ::
  "'n digraph \<Rightarrow> 'n \<Rightarrow> ('n \<Rightarrow> nat) \<Rightarrow> nat \<Rightarrow> ('n \<Rightarrow> 'n option) \<Rightarrow> 'n list \<Rightarrow> bool" where
  "bfs_inv R s g b p q =
     (expanded R p s \<and>
      (\<forall>x \<in> dom p. expanded R p x \<or> x \<in> set q) \<and>
      set q \<subseteq> dom p \<and>
      (\<forall>x \<in> set q. b \<le> g x) \<and>
      (\<forall>x \<in> insert s (dom p). g x \<le> b + 1) \<and>
      sorted (map g q) \<and>
      (\<forall>x \<in> insert s (dom p). hops R s (g x) x) \<and>
      (\<forall>x \<in> insert s (dom p). \<forall>y. expanded R p x \<and> pos_edge R x y \<and> y \<noteq> s \<longrightarrow>
          g y \<le> (if x = s then 0 else g x) + 1))"

lemma bfs_inv_complete:
  assumes "bfs_inv R s g b p q"
  shows "hops R s n v \<Longrightarrow> n \<le> b \<Longrightarrow> v \<in> insert s (dom p) \<and> (v = s \<or> g v \<le> n)"
proof (induction n arbitrary: v)
  case 0
  then show ?case by simp
next
  case (Suc n)
  from Suc.prems(1) obtain x where x: "hops R s n x" "pos_edge R x v"
    unfolding hops_Suc by blast
  from Suc.IH [OF x(1)] Suc.prems(2) have xd: "x \<in> insert s (dom p)" and xg: "x = s \<or> g x \<le> n"
    by simp_all
  from assms have i1: "expanded R p s"
    and i2: "\<forall>x \<in> dom p. expanded R p x \<or> x \<in> set q"
    and i4: "\<forall>x \<in> set q. b \<le> g x"
    and i8: "\<forall>x \<in> insert s (dom p). \<forall>y. expanded R p x \<and> pos_edge R x y \<and> y \<noteq> s \<longrightarrow>
          g y \<le> (if x = s then 0 else g x) + 1"
    unfolding bfs_inv_def by blast+
  have ex: "expanded R p x"
  proof (cases "x = s")
    case True
    with i1 show ?thesis by simp
  next
    case False
    with xd xg have "x \<in> dom p" "g x \<le> n" by auto
    with i2 i4 Suc.prems(2) show ?thesis by fastforce
  qed
  with x(2) have vd: "v \<in> dom p" by (simp add: expanded_def)
  have "g v \<le> Suc n" if "v \<noteq> s"
  proof -
    from i8 xd ex x(2) that have "g v \<le> (if x = s then 0 else g x) + 1" by blast
    with xg show ?thesis by (auto split: if_splits)
  qed
  with vd show ?case by auto
qed

lemma sorted_map_const: "\<forall>x \<in> set xs. f x = (c::nat) \<Longrightarrow> sorted (map f xs)"
  by (induction xs) auto

lemma bfs_inv_init:
  assumes "successors R s = Inr vs" and "scan R s vs (Map.empty, l, []) = Inr (p', l', q')"
  shows "bfs_inv R s (\<lambda>x. if x \<in> dom p' then 1 else 0) 0 p' q'"
proof -
  from scan_effect [OF assms(2)] obtain new where
    q: "q' = new" and dp: "dom p' = set new" and
    pe: "\<forall>y \<in> set new. pos_edge R s y" and
    ex: "\<forall>y \<in> set vs. pos_edge R s y \<longrightarrow> y \<in> dom p'"
    by auto
  let ?g = "\<lambda>x. if x \<in> dom p' then 1 else (0::nat)"
  have e: "expanded R p' s"
    unfolding expanded_def using ex pos_edge_successor [OF _ assms(1)] by blast
  have h: "hops R s (?g x) x" if "x \<in> insert s (dom p')" for x
  proof (cases "x \<in> dom p'")
    case True
    with dp pe have "pos_edge R s x" by simp
    then have "hops R s (Suc 0) x" unfolding hops_Suc by auto
    with True show ?thesis by simp
  next
    case False
    with that show ?thesis by simp
  qed
  have s: "sorted (map ?g q')"
    by (rule sorted_map_const [where c = 1]) (simp add: q dp)
  show ?thesis
    unfolding bfs_inv_def using e h s by (auto simp: q dp)
qed

lemma bfs_inv_step:
  assumes inv: "bfs_inv R s g b p (u # q1)"
    and succ: "successors R u = Inr vs"
    and sc: "scan R u vs (p, l, q1) = Inr (p', l', q')"
  shows "\<exists>g' b'. bfs_inv R s g' b' p' q'"
proof -
  from scan_effect [OF sc] obtain new where
    q: "q' = q1 @ new" and dp: "dom p' = dom p \<union> set new" and
    dj: "set new \<inter> dom p = {}" and
    pe: "\<forall>y \<in> set new. pos_edge R u y" and
    ex: "\<forall>y \<in> set vs. pos_edge R u y \<longrightarrow> y \<in> dom p'"
    by auto
  from inv have i1: "expanded R p s"
    and i2: "\<forall>x \<in> dom p. expanded R p x \<or> x \<in> set (u # q1)"
    and i3: "set (u # q1) \<subseteq> dom p"
    and i4: "\<forall>x \<in> set (u # q1). b \<le> g x"
    and i5: "\<forall>x \<in> insert s (dom p). g x \<le> b + 1"
    and i6: "sorted (map g (u # q1))"
    and i7: "\<forall>x \<in> insert s (dom p). hops R s (g x) x"
    and i8: "\<forall>x \<in> insert s (dom p). \<forall>y. expanded R p x \<and> pos_edge R x y \<and> y \<noteq> s \<longrightarrow>
          g y \<le> (if x = s then 0 else g x) + 1"
    unfolding bfs_inv_def by blast+
  define g' where "g' = (\<lambda>x. if x \<in> set new then g u + 1 else g x)"
  have gn: "g' x = g u + 1" if "x \<in> set new" for x using that by (simp add: g'_def)
  have go: "g' x = g x" if "x \<notin> set new" for x using that by (simp add: g'_def)
  have gp: "g' x = g x" if "x \<in> dom p" for x using that dj by (auto simp: g'_def)
  from i3 have ud: "u \<in> dom p" and q1d: "set q1 \<subseteq> dom p" by auto
  from i4 have bu: "b \<le> g u" by simp
  from i6 have q1g: "g u \<le> g x" if "x \<in> set q1" for x using that by auto
  have i5u: "g x \<le> g u + 1" if "x \<in> insert s (dom p)" for x
  proof -
    from i5 that have "g x \<le> b + 1" by blast
    with bu show ?thesis by simp
  qed
  have mono: "expanded R p' x" if "expanded R p x" for x
    using that dp by (auto simp: expanded_def)
  have eu: "expanded R p' u"
    unfolding expanded_def using ex pos_edge_successor [OF _ succ] by blast
  have pend: "g u \<le> g x" if "x \<in> dom p" "\<not> expanded R p x" for x
  proof -
    from i2 that have "x \<in> set (u # q1)" by blast
    then show ?thesis using q1g by auto
  qed
  have c1: "expanded R p' s" using i1 by (rule mono)
  have c2: "\<forall>x \<in> dom p'. expanded R p' x \<or> x \<in> set q'"
  proof
    fix x assume "x \<in> dom p'"
    then consider "x \<in> set new" | "x \<in> dom p" using dp by auto
    then show "expanded R p' x \<or> x \<in> set q'"
    proof cases
      case 1
      then show ?thesis by (simp add: q)
    next
      case 2
      with i2 have "expanded R p x \<or> x = u \<or> x \<in> set q1" by auto
      then show ?thesis using mono eu q by auto
    qed
  qed
  have c3: "set q' \<subseteq> dom p'" using q1d dp q by auto
  have c4: "\<forall>x \<in> set q'. g u \<le> g' x"
  proof
    fix x assume "x \<in> set q'"
    then consider "x \<in> set new" | "x \<in> set q1" using q by auto
    then show "g u \<le> g' x"
    proof cases
      case 1
      then show ?thesis by (simp add: gn)
    next
      case 2
      with q1d have "x \<in> dom p" by auto
      with q1g [OF 2] show ?thesis by (simp add: gp)
    qed
  qed
  have c5: "g' x \<le> g u + 1" if "x \<in> insert s (dom p')" for x
  proof (cases "x \<in> set new")
    case True
    then show ?thesis by (simp add: gn)
  next
    case False
    with that dp have "x \<in> insert s (dom p)" by auto
    then have "g x \<le> g u + 1" by (rule i5u)
    with False show ?thesis by (simp add: go)
  qed
  have c6: "sorted (map g' q')"
  proof -
    have a: "map g' q1 = map g q1" using q1d gp by (auto simp: subset_iff)
    have b: "sorted (map g' new)" by (rule sorted_map_const [where c = "g u + 1"]) (simp add: gn)
    have c: "g x \<le> g' y" if "x \<in> set q1" "y \<in> set new" for x y
    proof -
      from that(1) q1d have "x \<in> insert s (dom p)" by auto
      then have "g x \<le> g u + 1" by (rule i5u)
      with that(2) show ?thesis by (simp add: gn)
    qed
    from i6 have s1: "sorted (map g q1)" by simp
    show ?thesis
      unfolding q map_append sorted_append a using s1 b c by auto
  qed
  have c7: "hops R s (g' x) x" if "x \<in> insert s (dom p')" for x
  proof (cases "x \<in> set new")
    case True
    with pe have "pos_edge R u x" by simp
    moreover from i7 ud have "hops R s (g u) u" by simp
    ultimately have "hops R s (Suc (g u)) x" unfolding hops_Suc by blast
    with True show ?thesis by (simp add: gn)
  next
    case False
    with that dp have "x \<in> insert s (dom p)" by auto
    with i7 have "hops R s (g x) x" by blast
    with False show ?thesis by (simp add: go)
  qed
  have c8: "g' y \<le> (if x = s then 0 else g' x) + 1"
    if xd: "x \<in> insert s (dom p')" and xe: "expanded R p' x" and xy: "pos_edge R x y"
      and ys: "y \<noteq> s" for x y
  proof (cases "x = s")
    case True
    with xy have xy': "pos_edge R s y" by simp
    with i1 have "y \<in> dom p" by (simp add: expanded_def)
    moreover have "g y \<le> 0 + 1"
      using i8 [rule_format, of s y] i1 xy' ys by simp
    ultimately show ?thesis using True by (simp add: gp)
  next
    case False
    with xd have xp': "x \<in> dom p'" by simp
    from xe xy have yp': "y \<in> dom p'" by (simp add: expanded_def)
    show ?thesis
    proof (cases "x \<in> dom p \<and> expanded R p x")
      case True
      with xy have "y \<in> dom p" by (simp add: expanded_def)
      moreover have "g y \<le> g x + 1"
        using i8 [rule_format, of x y] True xy ys False by simp
      ultimately show ?thesis using True False by (simp add: gp)
    next
      case F2: False
      have "g u \<le> g' x"
      proof (cases "x \<in> dom p")
        case True
        with F2 pend have "g u \<le> g x" by blast
        with True show ?thesis by (simp add: gp)
      next
        case F3: False
        with xp' dp have "x \<in> set new" by auto
        then show ?thesis by (simp add: gn)
      qed
      moreover from c5 [of y] yp' have "g' y \<le> g u + 1" by simp
      ultimately show ?thesis using False by simp
    qed
  qed
  have "bfs_inv R s g' (g u) p' q'"
    unfolding bfs_inv_def using c1 c2 c3 c4 c5 c6 c7 c8 by blast
  then show ?thesis by blast
qed

lemma level_loop_inv:
  "level_loop R t st = Inr (pf, lf) \<Longrightarrow> bfs_inv R s g b (fst st) (snd (snd st)) \<Longrightarrow>
   \<exists>g' b' q'. bfs_inv R s g' b' pf q'"
proof (induction R t st arbitrary: g b rule: level_loop.induct)
  case (1 R t parents level queue)
  show ?case
  proof (cases queue)
    case Nil
    with "1.prems" show ?thesis by auto
  next
    case (Cons u q1)
    show ?thesis
    proof (cases "parents t \<noteq> None")
      case True
      with "1.prems" Cons show ?thesis by auto
    next
      case False
      with "1.prems"(1) Cons obtain vs st' where
        su: "successors R u = Inr vs" and sc: "scan R u vs (parents, level, q1) = Inr st'"
        and r: "level_loop R t st' = Inr (pf, lf)"
        by (auto split: sum.splits)
      obtain p' l' q' where st': "st' = (p', l', q')" by (cases st') auto
      from "1.prems"(2) Cons have "bfs_inv R s g b parents (u # q1)" by simp
      from bfs_inv_step [OF this su sc [unfolded st']] obtain g' b' where
        "bfs_inv R s g' b' p' q'" by blast
      then have "bfs_inv R s g' b' (fst st') (snd (snd st'))" by (simp add: st')
      from "1.IH" [OF Cons False su sc r this] show ?thesis .
    qed
  qed
qed

lemma level_loop_dom:
  "level_loop R t st = Inr (pf, lf) \<Longrightarrow> dom (fst (snd st)) = insert s (dom (fst st)) \<Longrightarrow>
   dom lf = insert s (dom pf)"
proof (induction R t st rule: level_loop.induct)
  case (1 R t parents level queue)
  show ?case
  proof (cases queue)
    case Nil
    with "1.prems" show ?thesis by auto
  next
    case (Cons u q1)
    show ?thesis
    proof (cases "parents t \<noteq> None")
      case True
      with "1.prems" Cons show ?thesis by auto
    next
      case False
      with "1.prems"(1) Cons obtain vs st' where
        su: "successors R u = Inr vs" and sc: "scan R u vs (parents, level, q1) = Inr st'"
        and r: "level_loop R t st' = Inr (pf, lf)"
        by (auto split: sum.splits)
      obtain p' l' q' where st': "st' = (p', l', q')" by (cases st') auto
      from scan_effect [OF sc [unfolded st']] obtain new where
        "dom p' = dom parents \<union> set new" "dom l' = dom level \<union> set new" by auto
      with "1.prems"(2) have "dom (fst (snd st')) = insert s (dom (fst st'))"
        by (auto simp: st')
      from "1.IH" [OF Cons False su sc r this] show ?thesis .
    qed
  qed
qed

lemma level_loop_pos:
  "level_loop R t st = Inr (pf, lf) \<Longrightarrow> (\<forall>y x. fst st y = Some x \<longrightarrow> pos_edge R x y) \<Longrightarrow>
   (\<forall>y x. pf y = Some x \<longrightarrow> pos_edge R x y)"
proof (induction R t st rule: level_loop.induct)
  case (1 R t parents level queue)
  show ?case
  proof (cases queue)
    case Nil
    with "1.prems" show ?thesis by auto
  next
    case (Cons u q1)
    show ?thesis
    proof (cases "parents t \<noteq> None")
      case True
      with "1.prems" Cons show ?thesis by auto
    next
      case False
      with "1.prems"(1) Cons obtain vs st' where
        su: "successors R u = Inr vs" and sc: "scan R u vs (parents, level, q1) = Inr st'"
        and r: "level_loop R t st' = Inr (pf, lf)"
        by (auto split: sum.splits)
      obtain p' l' q' where st': "st' = (p', l', q')" by (cases st') auto
      from scan_effect [OF sc [unfolded st']] obtain new where
        n: "\<forall>y \<in> set new. pos_edge R u y \<and> p' y = Some u"
           "\<forall>y. y \<notin> set new \<longrightarrow> p' y = parents y" by auto
      have "\<forall>y x. fst st' y = Some x \<longrightarrow> pos_edge R x y"
      proof (intro allI impI)
        fix y x assume a: "fst st' y = Some x"
        show "pos_edge R x y"
        proof (cases "y \<in> set new")
          case True
          with n(1) a show ?thesis by (auto simp: st')
        next
          case False
          with n(2) a have "parents y = Some x" by (simp add: st')
          with "1.prems"(2) show ?thesis by simp
        qed
      qed
      from "1.IH" [OF Cons False su sc r this] show ?thesis .
    qed
  qed
qed

lemma scan_succeeds:
  assumes "map_of R u = Some nb" and "capacities_present R"
  shows "l u \<noteq> None \<Longrightarrow> set vs \<subseteq> fst ` set nb \<Longrightarrow> \<exists>st'. scan R u vs (p, l, q) = Inr st'"
proof (induction vs arbitrary: p l q)
  case Nil
  then show ?case by simp
next
  case (Cons v vs)
  from Cons.prems(2) have "v \<in> fst ` set nb" and vs: "set vs \<subseteq> fst ` set nb" by auto
  then have "map_of nb v \<noteq> None" by (simp add: map_of_eq_None_iff)
  then obtain d where d: "edges_of R (u, v) = Some d"
    by (auto simp: edges_of_def assms(1))
  with assms(2) obtain c where "capacity d = Some c" by (auto dest: capacities_presentD)
  with d have c: "edge_capacity R u v = Inr c" by (simp add: edge_capacity_edges_of)
  from Cons.prems(1) obtain lu where lu: "l u = Some lu" by auto
  have r1: "\<exists>st'. scan R u vs (p(v \<mapsto> u), l(v \<mapsto> lu + 1), q @ [v]) = Inr st'"
    by (rule Cons.IH) (simp_all add: lu vs)
  have r2: "\<exists>st'. scan R u vs (p, l, q) = Inr st'"
    by (rule Cons.IH) (simp_all add: lu vs)
  from r1 r2 show ?case by (simp add: c lu)
qed

lemma pos_edge_has_node: "nodes_closed R \<Longrightarrow> pos_edge R u v \<Longrightarrow> has_node R v"
  by (auto simp: pos_edge_def split: sum.splits dest!: edge_capacity_has_edge dest: nodes_closedD)

lemma level_loop_succeeds:
  "nodes_closed R \<Longrightarrow> capacities_present R \<Longrightarrow>
   (\<forall>x \<in> set (snd (snd st)). has_node R x \<and> fst (snd st) x \<noteq> None) \<Longrightarrow>
   \<exists>r. level_loop R t st = Inr r"
proof (induction R t st rule: level_loop.induct)
  case (1 R t parents level queue)
  note nc = "1.prems"(1) and cp = "1.prems"(2)
  show ?case
  proof (cases queue)
    case Nil
    then show ?thesis by simp
  next
    case (Cons u q1)
    show ?thesis
    proof (cases "parents t \<noteq> None")
      case True
      with Cons show ?thesis by simp
    next
      case False
      from "1.prems"(3) Cons have u: "has_node R u" "level u \<noteq> None"
        and q1: "\<forall>x \<in> set q1. has_node R x \<and> level x \<noteq> None" by auto
      from u(1) obtain nb where nb: "map_of R u = Some nb" by (auto simp: has_node_def)
      then have su: "successors R u = Inr (map fst nb)" by (simp add: successors_def)
      have "\<exists>st'. scan R u (map fst nb) (parents, level, q1) = Inr st'"
        by (rule scan_succeeds [OF nb cp]) (simp_all add: u(2))
      then obtain st' where sc: "scan R u (map fst nb) (parents, level, q1) = Inr st'" by blast
      obtain p' l' q' where st': "st' = (p', l', q')" by (cases st') auto
      from scan_effect [OF sc [unfolded st']] obtain new where
        n: "q' = q1 @ new" "dom l' = dom level \<union> set new" "\<forall>y \<in> set new. pos_edge R u y"
        by auto
      have "\<forall>x \<in> set (snd (snd st')). has_node R x \<and> fst (snd st') x \<noteq> None"
      proof
        fix x assume "x \<in> set (snd (snd st'))"
        then consider "x \<in> set q1" | "x \<in> set new" by (auto simp: st' n(1))
        then show "has_node R x \<and> fst (snd st') x \<noteq> None"
        proof cases
          case 1
          with q1 have "has_node R x" "x \<in> dom level" by auto
          with n(2) show ?thesis by (auto simp: st')
        next
          case 2
          with n(3) pos_edge_has_node [OF nc] have "has_node R x" by blast
          moreover from 2 n(2) have "x \<in> dom l'" by auto
          ultimately show ?thesis by (auto simp: st')
        qed
      qed
      from "1.IH" [OF Cons False su sc nc cp this] obtain r where "level_loop R t st' = Inr r" by blast
      with Cons False su sc show ?thesis by simp
    qed
  qed
qed

lemma level_bfs_unfold:
  "level_bfs R flow s t =
     (case successors R s of
        Inl e \<Rightarrow> Inl e
      | Inr vs \<Rightarrow>
          (case scan R s vs (Map.empty, [s \<mapsto> 0], []) of
             Inl e \<Rightarrow> Inl e
           | Inr st \<Rightarrow> level_loop R t st))"
  by (simp add: level_bfs_def)

lemma level_bfs_start:
  assumes "level_bfs R flow s t = Inr (parents, level)"
  obtains vs p1 l1 q1 where "successors R s = Inr vs"
    and "scan R s vs (Map.empty, [s \<mapsto> 0], []) = Inr (p1, l1, q1)"
    and "level_loop R t (p1, l1, q1) = Inr (parents, level)"
proof -
  from assms obtain vs st where a: "successors R s = Inr vs"
    "scan R s vs (Map.empty, [s \<mapsto> 0], []) = Inr st" "level_loop R t st = Inr (parents, level)"
    unfolding level_bfs_unfold by (auto split: sum.splits)
  obtain p1 l1 q1 where "st = (p1, l1, q1)" by (cases st) auto
  with a that show ?thesis by blast
qed

lemma level_bfs_dom:
  assumes "level_bfs R flow s t = Inr (parents, level)"
  shows "dom level = insert s (dom parents)"
proof -
  from assms obtain vs p1 l1 q1 where su: "successors R s = Inr vs"
    and sc: "scan R s vs (Map.empty, [s \<mapsto> 0], []) = Inr (p1, l1, q1)"
    and lo: "level_loop R t (p1, l1, q1) = Inr (parents, level)"
    by (rule level_bfs_start)
  from scan_effect [OF sc] have "dom l1 = insert s (dom p1)" by auto
  with level_loop_dom [OF lo, of s] show ?thesis by simp
qed

lemma level_bfs_parents_pos:
  assumes "level_bfs R flow s t = Inr (parents, level)" and "parents v = Some u"
  shows "pos_edge R u v"
proof -
  from assms(1) obtain vs p1 l1 q1 where su: "successors R s = Inr vs"
    and sc: "scan R s vs (Map.empty, [s \<mapsto> 0], []) = Inr (p1, l1, q1)"
    and lo: "level_loop R t (p1, l1, q1) = Inr (parents, level)"
    by (rule level_bfs_start)
  from scan_effect [OF sc] obtain new where
    n: "\<forall>y \<in> set new. pos_edge R s y \<and> p1 y = Some s" "\<forall>y. y \<notin> set new \<longrightarrow> p1 y = None"
    by auto
  have "\<forall>y x. fst (p1, l1, q1) y = Some x \<longrightarrow> pos_edge R x y"
  proof (intro allI impI)
    fix y x assume "fst (p1, l1, q1) y = Some x"
    with n show "pos_edge R x y" by (cases "y \<in> set new") auto
  qed
  from level_loop_pos [OF lo this] assms(2) show ?thesis by blast
qed

lemma level_bfs_inv:
  assumes "level_bfs R flow s t = Inr (parents, level)"
  shows "\<exists>g b q. bfs_inv R s g b parents q"
proof -
  from assms obtain vs p1 l1 q1 where su: "successors R s = Inr vs"
    and sc: "scan R s vs (Map.empty, [s \<mapsto> 0], []) = Inr (p1, l1, q1)"
    and lo: "level_loop R t (p1, l1, q1) = Inr (parents, level)"
    by (rule level_bfs_start)
  from bfs_inv_init [OF su sc]
  have "bfs_inv R s (\<lambda>x. if x \<in> dom p1 then 1 else 0) 0 (fst (p1, l1, q1)) (snd (snd (p1, l1, q1)))"
    by simp
  from level_loop_inv [OF lo this] show ?thesis .
qed


lemma residual_edges_errors:
  "residual_edges G H flow = Inl e \<Longrightarrow> e = KeyError \<or> e = ValueError"
proof (induction flow arbitrary: H)
  case Nil
  then show ?case by simp
next
  case (Cons a rest)
  obtain u v f where a: "a = ((u, v), f)" by (cases a) auto
  have k: "edge_capacity G' x y = Inl e' \<Longrightarrow> e' = KeyError" for G' :: "'a digraph" and x y e'
    by (auto simp: edge_capacity_edges_of split: option.splits)
  have s: "residual_step H u v f = Inl e' \<Longrightarrow> e' = KeyError" for e'
    by (auto simp: residual_step_def Let_def split: sum.splits if_splits dest: k)
  from Cons.prems Cons.IH show ?case
    by (auto simp: a split: sum.splits if_splits dest: k s)
qed


subsection \<open>Example graphs for the breadth-first search\<close>

definition ex_layers :: "string digraph" where
  "ex_layers =
     [(''s'', [(''a'', cap_only 1), (''b'', cap_only 1)]),
      (''a'', [(''t'', cap_only 1)]),
      (''b'', [(''c'', cap_only 1)]),
      (''t'', []),
      (''c'', [])]"

definition ex_selfloop :: "string digraph" where
  "ex_selfloop = [(''s'', [(''s'', cap_only 1), (''b'', cap_only 1)]), (''b'', [])]"

definition ex_negative :: "string digraph" where
  "ex_negative = [(''s'', [(''a'', cap_only (- 5))]), (''a'', [])]"

lemma ex_layers_bfs:
  "level_bfs ex_layers [] ''s'' ''t'' =
     Inr ([''a'' \<mapsto> ''s'', ''b'' \<mapsto> ''s'', ''t'' \<mapsto> ''a''],
          [''s'' \<mapsto> 0, ''a'' \<mapsto> 1, ''b'' \<mapsto> 1, ''t'' \<mapsto> 2])"
  by (simp add: level_bfs_def ex_layers_def graph_defs)


subsection \<open>Claims about the breadth-first search\<close>

text \<open>
  Claim C2 says that every node, the source in particular, keeps the level of its first
  discovery, its hop distance from the source. The source is given level 0 but is never
  entered into \<open>parents\<close>, so the test \<^verbatim>\<open>v not in parents\<close> lets the first traversable
  edge back to the source assign it a new level. On the residual graph of the example
  network the source ends at level 2, with \<open>a\<close> as its parent. With a self-loop at the
  source that comes before another successor \<open>b\<close>, the source is re-levelled in the middle
  of its own scan and \<open>b\<close>, one hop away, is given level 2.
\<close>

theorem level_bfs_source_relevelled:
  "residual_graph ex_net ex_flow = Inr ex_residual \<and>
   (case level_bfs ex_residual ex_flow ''s'' ''t'' of
      Inl e \<Rightarrow> False
    | Inr (parents, level) \<Rightarrow>
        level ''s'' = Some 2 \<and> parents ''s'' = Some ''a'' \<and> hops ex_residual ''s'' 0 ''s'') \<and>
   (case level_bfs ex_selfloop [] ''s'' ''t'' of
      Inl e \<Rightarrow> False
    | Inr (parents, level) \<Rightarrow>
        level ''s'' = Some 1 \<and> level ''b'' = Some 2 \<and> hops ex_selfloop ''s'' 1 ''b'')"
  using ex_residual_eval
  by (simp add: level_bfs_def pos_edge_def ex_residual_def ex_selfloop_def graph_defs)


text \<open>
  Claim C3, as amended. The search stops at the first loop head at which the sink has a
  parent: the sink is not dequeued first, and the nodes at the sink's own distance need
  not be complete. When \<open>level_bfs\<close> returns with the sink discovered, every node that is
  reachable from the source by a walk of traversable edges shorter than every such walk
  to the sink is in the level map.
\<close>

theorem level_bfs_complete_below_sink:
  assumes "level_bfs R flow s t = Inr (parents, level)" and "parents t \<noteq> None"
    and "hops R s n v" and "\<forall>m. hops R s m t \<longrightarrow> n < m"
  shows "v \<in> dom level \<and> (\<forall>l q. level_loop R t (parents, l, q) = Inr (parents, l))"
proof -
  from level_bfs_inv [OF assms(1)] obtain g b q where inv: "bfs_inv R s g b parents q" by blast
  from assms(2) have td: "t \<in> insert s (dom parents)" by auto
  from inv td have "hops R s (g t) t" "g t \<le> b + 1"
    unfolding bfs_inv_def by blast+
  with assms(4) have "n \<le> b" by fastforce
  from bfs_inv_complete [OF inv assms(3) this] have "v \<in> insert s (dom parents)" by simp
  then have "v \<in> dom level" unfolding level_bfs_dom [OF assms(1)] .
  moreover have "level_loop R t (parents, l, q) = Inr (parents, l)" for l q
    using assms(2) by (cases q) simp_all
  ultimately show ?thesis by blast
qed

theorem level_bfs_complete_below_sink_witness:
  "\<exists>parents level. level_bfs ex_layers [] ''s'' ''t'' = Inr (parents, level) \<and>
     parents ''t'' \<noteq> None \<and> hops ex_layers ''s'' 1 ''a'' \<and> ''a'' \<in> dom level"
proof -
  let ?p = "[''a'' \<mapsto> ''s'', ''b'' \<mapsto> ''s'', ''t'' \<mapsto> ''a'']"
  let ?l = "[''s'' \<mapsto> 0::int, ''a'' \<mapsto> 1, ''b'' \<mapsto> 1, ''t'' \<mapsto> 2]"
  have t: "?p ''t'' \<noteq> None" by simp
  have h: "hops ex_layers ''s'' 1 ''a''"
    by (simp add: pos_edge_def ex_layers_def graph_defs)
  have f: "\<forall>m. hops ex_layers ''s'' m ''t'' \<longrightarrow> 1 < m"
  proof (intro allI impI)
    fix m assume a: "hops ex_layers ''s'' m ''t''"
    show "1 < m"
    proof (cases m)
      case 0
      with a show ?thesis by simp
    next
      case (Suc k)
      show ?thesis
      proof (cases k)
        case 0
        with a Suc show ?thesis by (simp add: pos_edge_def ex_layers_def graph_defs)
      next
        case (Suc j)
        with \<open>m = Suc k\<close> show ?thesis by simp
      qed
    qed
  qed
  from level_bfs_complete_below_sink [OF ex_layers_bfs t h f] ex_layers_bfs t h
  show ?thesis by blast
qed


text \<open>
  The claim as first stated fails: the sink \<open>t\<close> is found at level 2 while scanning \<open>a\<close>,
  the loop stops before \<open>b\<close> is dequeued, and \<open>c\<close>, two hops from the source, is not in
  the level map.
\<close>

theorem level_bfs_sink_level_counterexample:
  "(case level_bfs ex_layers [] ''s'' ''t'' of
      Inl e \<Rightarrow> False
    | Inr (parents, level) \<Rightarrow>
        parents ''t'' = Some ''a'' \<and> level ''t'' = Some 2 \<and>
        hops ex_layers ''s'' 2 ''c'' \<and> level ''c'' = None)"
  unfolding ex_layers_bfs
  by (simp add: pos_edge_def ex_layers_def graph_defs numeral_2_eq_2)

text \<open>
  Claim C6, as amended. A negative capacity raises no error. When every edge of \<open>G\<close>
  carries a capacity, \<open>residual_graph\<close> succeeds exactly when every edge of the flow
  mapping is an edge of \<open>G\<close> whose flow is not above its capacity, whatever the signs; its
  only errors are the KeyError of a missing edge or capacity and the ValueError of a flow
  above the capacity. \<open>level_bfs\<close> follows only edges of positive capacity: every node
  with a parent is reached from it by an edge of positive capacity.
\<close>

theorem negative_capacity_accepted:
  "(all_capacities G \<longrightarrow>
      ((\<exists>H. residual_graph G flow = Inr H) \<longleftrightarrow>
       (\<forall>((u, v), f) \<in> set flow. has_edge G u v \<and> f \<le> cap0 G u v))) \<and>
   (\<forall>e. residual_graph G flow = Inl e \<longrightarrow> e = KeyError \<or> e = ValueError) \<and>
   (\<forall>parents level u v.
      level_bfs R flow' s t = Inr (parents, level) \<and> parents v = Some u \<longrightarrow> 0 < cap0 R u v)"
proof (intro conjI impI allI)
  assume c: "all_capacities G"
  then have p: "capacities_present G" by (rule all_capacities_present)
  show "(\<exists>H. residual_graph G flow = Inr H) \<longleftrightarrow>
       (\<forall>((u, v), f) \<in> set flow. has_edge G u v \<and> f \<le> cap0 G u v)"
  proof
    assume "\<exists>H. residual_graph G flow = Inr H"
    then obtain H where "residual_edges G G flow = Inr H"
      unfolding residual_graph_def ..
    then show "\<forall>((u, v), f) \<in> set flow. has_edge G u v \<and> f \<le> cap0 G u v"
      by (rule residual_edges_checks)
  next
    assume "\<forall>((u, v), f) \<in> set flow. has_edge G u v \<and> f \<le> cap0 G u v"
    from residual_edges_succeeds [OF this p p] show "\<exists>H. residual_graph G flow = Inr H"
      unfolding residual_graph_def by simp
  qed
next
  fix e assume "residual_graph G flow = Inl e"
  then show "e = KeyError \<or> e = ValueError"
    unfolding residual_graph_def by (rule residual_edges_errors)
next
  fix parents level u v
  assume "level_bfs R flow' s t = Inr (parents, level) \<and> parents v = Some u"
  then have a: "level_bfs R flow' s t = Inr (parents, level)" "parents v = Some u" by simp_all
  from a have "pos_edge R u v" by (rule level_bfs_parents_pos)
  then show "0 < cap0 R u v" by (simp add: pos_edge_def cap0_def split: sum.splits)
qed


theorem negative_capacity_accepted_witness:
  "all_capacities ex_negative \<and> cap0 ex_negative ''s'' ''a'' < 0 \<and>
   (\<exists>H. residual_graph ex_negative [((''s'', ''a''), - 7)] = Inr H) \<and>
   (\<exists>parents level. level_bfs ex_net [] ''s'' ''t'' = Inr (parents, level) \<and>
      parents ''t'' = Some ''a'' \<and> 0 < cap0 ex_net ''a'' ''t'')"
proof -
  have c: "all_capacities ex_negative" "cap0 ex_negative ''s'' ''a'' < 0"
    by (simp_all add: ex_negative_def graph_defs)
  have f: "\<forall>((u, v), f) \<in> set [((''s'', ''a''), - 7)].
      has_edge ex_negative u v \<and> f \<le> cap0 ex_negative u v"
    by (simp add: ex_negative_def graph_defs)
  have b: "level_bfs ex_net [] ''s'' ''t'' =
     Inr ([''a'' \<mapsto> ''s'', ''b'' \<mapsto> ''s'', ''t'' \<mapsto> ''a''],
          [''s'' \<mapsto> 0, ''a'' \<mapsto> 1, ''b'' \<mapsto> 1, ''t'' \<mapsto> 2])"
    by (simp add: level_bfs_def ex_net_def graph_defs)
  have t: "[''a'' \<mapsto> ''s'', ''b'' \<mapsto> ''s'', ''t'' \<mapsto> ''a''] ''t'' = Some ''a''" by simp
  note th = negative_capacity_accepted
    [of ex_negative "[((''s'', ''a''), - 7)]" ex_net "[]" "''s''" "''t''"]
  from th c f have "\<exists>H. residual_graph ex_negative [((''s'', ''a''), - 7)] = Inr H"
    by blast
  moreover from th b t have "0 < cap0 ex_net ''a'' ''t''" by blast
  ultimately show ?thesis using c b t by blast
qed


text \<open>
  The claim as first stated fails: on a graph whose only edge has capacity \<open>-5\<close>, both
  the residual construction and the breadth-first search run to completion.
\<close>

theorem negative_capacity_counterexample:
  "cap0 ex_negative ''s'' ''a'' < 0 \<and>
   residual_graph ex_negative [((''s'', ''a''), - 7)] =
     Inr [(''s'', [(''a'', cap_only 2)]), (''a'', [(''s'', rev_edge (- 7))])] \<and>
   (case level_bfs ex_negative [] ''s'' ''a'' of
      Inl e \<Rightarrow> False
    | Inr (parents, level) \<Rightarrow> parents ''a'' = None \<and> level ''s'' = Some 0)"
  by (simp add: residual_graph_def residual_step_def level_bfs_def ex_negative_def graph_defs)


text \<open>
  Claim C8, as amended. No operation checks its nodes at entry. A flow edge with an end
  point outside the graph makes \<open>check_valid_flow\<close> (on a well-formed graph and small
  integers) fail with the KeyError of the lookup \<^verbatim>\<open>G[u][v]\<close>; a source outside the
  graph makes \<open>level_bfs\<close> fail with the NetworkXError of \<^verbatim>\<open>R.successors\<close> when the
  source is dequeued; a sink outside the graph is accepted, and \<open>level_bfs\<close> returns maps
  in which the sink has no parent.
\<close>

theorem absent_node_outcomes:
  "(wf_graph G \<and> distinct (map fst flow) \<and> small_numbers G flow \<and>
    (\<exists>((u, v), f) \<in> set flow. \<not> has_node G u \<or> \<not> has_node G v) \<longrightarrow>
      check_valid_flow G flow s t = Inl KeyError) \<and>
   (\<not> has_node R s \<longrightarrow> level_bfs R flow s t = Inl NetworkXError) \<and>
   (nodes_closed R \<and> all_capacities R \<and> has_node R s \<and> \<not> has_node R t \<longrightarrow>
      (\<exists>parents level. level_bfs R flow s t = Inr (parents, level) \<and> parents t = None))"
proof (intro conjI impI)
  assume a: "wf_graph G \<and> distinct (map fst flow) \<and> small_numbers G flow \<and>
    (\<exists>((u, v), f) \<in> set flow. \<not> has_node G u \<or> \<not> has_node G v)"
  then have wf: "wf_graph G" and d: "distinct (map fst flow)"
    and small: "total_abs flow < 1000000000"
    by (simp_all add: small_numbers_def)
  from wf have nc: "nodes_closed G" by (simp add: wf_graph_def)
  have "has_node G u \<and> has_node G v" if "has_edge G u v" for u v
  proof -
    from that obtain d where d: "edges_of G (u, v) = Some d" by (auto simp: has_edge_def)
    then have "has_node G u" by (auto simp: edges_of_def has_node_def split: option.splits)
    with nodes_closedD [OF nc d] show ?thesis by simp
  qed
  with a have "\<exists>((u, v), f) \<in> set flow. \<not> has_edge G u v" by blast
  from check_loop_key_error [OF wf d small this]
  show "check_valid_flow G flow s t = Inl KeyError"
    by (simp add: check_valid_flow_def)
next
  assume "\<not> has_node R s"
  then show "level_bfs R flow s t = Inl NetworkXError"
    by (simp add: level_bfs_def successors_def has_node_def)
next
  assume a: "nodes_closed R \<and> all_capacities R \<and> has_node R s \<and> \<not> has_node R t"
  then have nc: "nodes_closed R" and cp: "capacities_present R" and hs: "has_node R s"
    and nt: "\<not> has_node R t"
    by (simp_all add: all_capacities_present)
  have "\<forall>x \<in> set (snd (snd (Map.empty :: 'b \<Rightarrow> 'b option, [s \<mapsto> 0::int], [s]))).
      has_node R x \<and> fst (snd (Map.empty :: 'b \<Rightarrow> 'b option, [s \<mapsto> 0::int], [s])) x \<noteq> None"
    using hs by simp
  from level_loop_succeeds [OF nc cp this, of t] obtain parents level where
    r: "level_bfs R flow s t = Inr (parents, level)"
    unfolding level_bfs_def by (cases) auto
  have "parents t = None"
  proof (cases "parents t")
    case None
    then show ?thesis .
  next
    case (Some x)
    from level_bfs_parents_pos [OF r Some] pos_edge_has_node [OF nc] nt show ?thesis by blast
  qed
  with r show "\<exists>parents level. level_bfs R flow s t = Inr (parents, level) \<and> parents t = None"
    by blast
qed

text \<open>
  The operations do not look at their nodes before they start: an absent source is met
  when it is dequeued, an absent end point of a flow edge when the loop reaches the edge.
\<close>

theorem absent_node_outcomes_witness:
  "wf_graph ex_net \<and> all_capacities ex_net \<and> \<not> has_node ex_net ''z'' \<and>
   small_numbers ex_net [((''s'', ''z''), 1)] \<and>
   check_valid_flow ex_net [((''s'', ''z''), 1)] ''s'' ''t'' = Inl KeyError \<and>
   level_bfs ex_net [] ''z'' ''t'' = Inl NetworkXError \<and>
   (\<exists>parents level. level_bfs ex_net [] ''s'' ''z'' = Inr (parents, level) \<and>
      parents ''z'' = None)"
proof -
  have n: "nodes_closed ex_net" "all_capacities ex_net" "\<not> has_node ex_net ''z''"
    "has_node ex_net ''s''"
    by (simp_all add: nodes_closed_def ex_net_def graph_defs)
  have w: "wf_graph ex_net" "distinct (map fst [((''s'', ''z''), 1::int)])"
    "small_numbers ex_net [((''s'', ''z''), 1)]"
    by (simp_all add: wf_graph_def nodes_closed_def small_numbers_def total_abs_def
          ex_net_def graph_defs)
  have f: "\<exists>((u, v), f) \<in> set [((''s'', ''z''), 1::int)].
      \<not> has_node ex_net u \<or> \<not> has_node ex_net v"
    using n(3) by simp
  from absent_node_outcomes [of ex_net "[((''s'', ''z''), 1)]" "''s''" "''t''" ex_net] w f
  have a: "check_valid_flow ex_net [((''s'', ''z''), 1)] ''s'' ''t'' = Inl KeyError" by blast
  from absent_node_outcomes [of ex_net "[]" "''z''" "''t''" ex_net] n(3)
  have b: "level_bfs ex_net [] ''z'' ''t'' = Inl NetworkXError" by blast
  from absent_node_outcomes [of ex_net "[]" "''s''" "''z''" ex_net] n
  have c: "\<exists>parents level. level_bfs ex_net [] ''s'' ''z'' = Inr (parents, level) \<and>
      parents ''z'' = None" by blast
  from n w a b c show ?thesis by simp
qed


text \<open>
  The claim as first stated fails: a sink that is not a node of the graph is accepted
  silently by \<open>level_bfs\<close>, which searches the whole graph and returns; and the error for
  a flow edge with an absent end point is a KeyError.
\<close>

theorem absent_sink_accepted_counterexample:
  "\<not> has_node ex_net ''z'' \<and>
   (case level_bfs ex_net [] ''s'' ''z'' of
      Inl e \<Rightarrow> False
    | Inr (parents, level) \<Rightarrow> parents ''z'' = None \<and> level ''t'' = Some 2) \<and>
   check_valid_flow ex_net [((''s'', ''z''), 1)] ''s'' ''t'' = Inl KeyError"
  by (simp add: level_bfs_def check_valid_flow_def ex_net_def graph_defs)

section \<open>Augmenting paths\<close>

text \<open>
  \<^verbatim>\<open>
  def aug_path_dfs(parents, flow, source_node, target_node):
      """Build a path using DFS starting from the target_node"""
      path = []
      u = target_node
      f = 3 * max(flow.values())  # Initialize flow to large value
      while u != source_node:
          path.append(u)
          v = parents[u]
          f = min(f, R.pred[u][v]["capacity"] - flow.get((u, v), 0))
          u = v
      path.append(source_node)
      # Augment the flow along the path found
      return path, f
  \<close>
  The graph \<open>R\<close> is not a parameter of the source: it is the notebook's global variable,
  and is a parameter of the model. \<^verbatim>\<open>R.pred[u][v]\<close> is the attribute dictionary of
  the edge from \<open>v\<close> to \<open>u\<close>. The loop follows \<open>parents\<close> until it meets the source; it
  runs forever on a cycle of parents that avoids the source, so the model is a partial
  function whose value \<open>None\<close> stands for not returning.
\<close>

definition pred_capacity :: "'n digraph \<Rightarrow> 'n \<Rightarrow> 'n \<Rightarrow> error + int" where
  "pred_capacity R u v = (if has_node R u then edge_capacity R v u else Inl KeyError)"

definition py_max :: "int list \<Rightarrow> error + int" where
  "py_max xs = (case xs of [] \<Rightarrow> Inl ValueError | x # ys \<Rightarrow> Inr (fold max ys x))"

partial_function (option) aug_loop ::
  "'n digraph \<Rightarrow> ('n \<Rightarrow> 'n option) \<Rightarrow> 'n flow \<Rightarrow> 'n \<Rightarrow> 'n list \<Rightarrow> int \<Rightarrow> 'n \<Rightarrow>
   (error + 'n list \<times> int) option" where
  "aug_loop R parents flow s path f u =
     (if u \<noteq> s then
        (case parents u of
           None \<Rightarrow> Some (Inl KeyError)
         | Some v \<Rightarrow>
             (case pred_capacity R u v of
                Inl e \<Rightarrow> Some (Inl e)
              | Inr c \<Rightarrow>
                  aug_loop R parents flow s (path @ [u]) (min f (c - flow_get flow (u, v))) v))
      else Some (Inr (path @ [s], f)))"

definition aug_path_dfs ::
  "'n digraph \<Rightarrow> ('n \<Rightarrow> 'n option) \<Rightarrow> 'n flow \<Rightarrow> 'n \<Rightarrow> 'n \<Rightarrow> (error + 'n list \<times> int) option" where
  "aug_path_dfs R parents flow s t =
     (case py_max (map snd flow) of
        Inl e \<Rightarrow> Some (Inl e)
      | Inr m \<Rightarrow> aug_loop R parents flow s [] (3 * m) t)"

text \<open>
  \<open>chain parents s u xs\<close>: following \<open>parents\<close> from \<open>u\<close> visits the nodes \<open>xs\<close> and then
  meets the source. \<open>chain_edges\<close>: each of these nodes is entered by an edge of \<open>R\<close>
  from its parent that carries a capacity. \<open>bottleneck\<close>: the value the loop computes
  along the chain from the seed \<open>f\<close>.
\<close>

fun chain :: "('n \<Rightarrow> 'n option) \<Rightarrow> 'n \<Rightarrow> 'n \<Rightarrow> 'n list \<Rightarrow> bool" where
  "chain parents s u [] = (u = s)"
| "chain parents s u (x # xs) =
     (u \<noteq> s \<and> x = u \<and> (case parents u of None \<Rightarrow> False | Some v \<Rightarrow> chain parents s v xs))"

definition chain_edges :: "'n digraph \<Rightarrow> ('n \<Rightarrow> 'n option) \<Rightarrow> 'n list \<Rightarrow> bool" where
  "chain_edges R parents xs =
     list_all (\<lambda>u. case parents u of
                      None \<Rightarrow> False
                    | Some v \<Rightarrow> (case pred_capacity R u v of Inl e \<Rightarrow> False | Inr c \<Rightarrow> True)) xs"

fun bottleneck :: "'n digraph \<Rightarrow> ('n \<Rightarrow> 'n option) \<Rightarrow> 'n flow \<Rightarrow> int \<Rightarrow> 'n list \<Rightarrow> int" where
  "bottleneck R parents flow f [] = f"
| "bottleneck R parents flow f (u # xs) =
     (case parents u of
        None \<Rightarrow> f
      | Some v \<Rightarrow>
          (case pred_capacity R u v of
             Inl e \<Rightarrow> f
           | Inr c \<Rightarrow> bottleneck R parents flow (min f (c - flow_get flow (u, v))) xs))"

lemma aug_loop_chain:
  "chain parents s u xs \<Longrightarrow> chain_edges R parents xs \<Longrightarrow>
   aug_loop R parents flow s path f u =
     Some (Inr (path @ xs @ [s], bottleneck R parents flow f xs))"
proof (induction xs arbitrary: u path f)
  case Nil
  then show ?case by (subst aug_loop.simps) simp
next
  case (Cons x xs)
  from Cons.prems(1) obtain v where u: "u \<noteq> s" "x = u" "parents u = Some v"
    and ch: "chain parents s v xs"
    by (auto split: option.splits)
  from Cons.prems(2) u obtain c where c: "pred_capacity R u v = Inr c"
    and ce: "chain_edges R parents xs"
    by (auto simp: chain_edges_def split: sum.splits)
  note ih = Cons.IH [OF ch ce, of "path @ [u]" "min f (c - flow_get flow (u, v))"]
  show ?case
    by (subst aug_loop.simps) (simp add: u c ih)
qed

lemma aug_loop_returns_aux:
  assumes "aug_loop R parents flow s path f u = Some r"
  shows "\<forall>p' f'. r = Inr (p', f') \<longrightarrow>
     (\<exists>xs. p' = path @ xs @ [s] \<and> chain parents s u xs \<and> chain_edges R parents xs)"
proof (rule aug_loop.raw_induct [OF _ assms], goal_cases)
  case (1 al R parents flow s path f u r)
  note ih = "1"(1) and body = "1"(2)
  show ?case
  proof (intro allI impI)
    fix p' f' assume r: "r = Inr (p', f')"
    show "\<exists>xs. p' = path @ xs @ [s] \<and> chain parents s u xs \<and> chain_edges R parents xs"
    proof (cases "u = s")
      case True
      with r body have "p' = path @ [s]" by simp
      with True show ?thesis by (intro exI [of _ "[]"]) (simp add: chain_edges_def)
    next
      case False
      with body r obtain v c where v: "parents u = Some v" and c: "pred_capacity R u v = Inr c"
        and l: "al R parents flow s (path @ [u]) (min f (c - flow_get flow (u, v))) v = Some r"
        by (auto split: option.splits sum.splits)
      from ih [OF l] r obtain xs where
        xs: "p' = (path @ [u]) @ xs @ [s]" "chain parents s v xs" "chain_edges R parents xs"
        by blast
      with False v c show ?thesis
        by (intro exI [of _ "u # xs"]) (simp add: chain_edges_def)
    qed
  qed
qed

lemma aug_loop_returns:
  "aug_loop R parents flow s path f u = Some (Inr (p', f')) \<Longrightarrow>
   \<exists>xs. p' = path @ xs @ [s] \<and> chain parents s u xs \<and> chain_edges R parents xs"
  by (drule aug_loop_returns_aux) simp

lemma py_max_nonempty: "(\<exists>m. py_max (map snd flow) = Inr m) = (flow \<noteq> [])"
  by (cases flow) (simp_all add: py_max_def)


definition ex_small_flow :: "string flow" where
  "ex_small_flow = [((''s'', ''a''), 1), ((''a'', ''t''), 1)]"

definition ex_small_residual :: "string digraph" where
  "ex_small_residual =
     [(''s'', [(''a'', cap_only 9), (''b'', cap_only 5)]),
      (''a'', [(''t'', cap_only 4), (''s'', rev_edge 1)]),
      (''b'', [(''t'', cap_only 10)]),
      (''t'', [(''a'', rev_edge 1)])]"

definition ex_disconnected :: "string digraph" where
  "ex_disconnected = [(''s'', []), (''t'', [])]"


lemma level_bfs_chain_edges:
  assumes "nodes_closed R" and "level_bfs R flow' s' t' = Inr (parents, level)"
  shows "chain parents s u xs \<Longrightarrow> chain_edges R parents xs"
proof (induction xs arbitrary: u)
  case Nil
  then show ?case by (simp add: chain_edges_def)
next
  case (Cons x xs)
  from Cons.prems obtain v where u: "x = u" "parents u = Some v" and ch: "chain parents s v xs"
    by (auto split: option.splits)
  from level_bfs_parents_pos [OF assms(2) u(2)] have p: "pos_edge R v u" .
  then obtain c where "edge_capacity R v u = Inr c"
    by (auto simp: pos_edge_def split: sum.splits)
  moreover from pos_edge_has_node [OF assms(1) p] have "has_node R u" .
  ultimately have "pred_capacity R u v = Inr c" by (simp add: pred_capacity_def)
  with Cons.IH [OF ch] u show ?case by (simp add: chain_edges_def)
qed


lemmas aug_defs = aug_path_dfs_def py_max_def pred_capacity_def chain_edges_def

lemma ex_small_bfs:
  "level_bfs ex_small_residual ex_small_flow ''s'' ''t'' =
     Inr ([''a'' \<mapsto> ''s'', ''b'' \<mapsto> ''s'', ''t'' \<mapsto> ''a'', ''s'' \<mapsto> ''a''],
          [''s'' \<mapsto> 0, ''a'' \<mapsto> 1, ''b'' \<mapsto> 1, ''t'' \<mapsto> 2, ''s'' \<mapsto> 2])"
  by (simp add: level_bfs_def ex_small_residual_def graph_defs)


text \<open>
  Claim C10, as amended. \<open>aug_path_dfs\<close> returns without error exactly when the flow
  mapping is not empty, following \<open>parents\<close> from the target reaches the source, and
  every edge from a parent to its child on that chain is an edge of the graph \<open>R\<close> that
  carries a capacity. It then returns the chain, listed from the target to the source,
  with the minimum of the seed \<open>3 * max(flow.values())\<close> and the values
  \<open>capacity(v, u) - flow.get((u, v), 0)\<close> of the chain's edges. The third condition holds
  when \<open>parents\<close> was returned by \<open>level_bfs\<close> on the same graph.
\<close>

theorem aug_path_dfs_total:
  "(flow \<noteq> [] \<and> chain parents s t xs \<and> chain_edges R parents xs \<longrightarrow>
      (\<exists>m. py_max (map snd flow) = Inr m \<and>
         aug_path_dfs R parents flow s t =
           Some (Inr (xs @ [s], bottleneck R parents flow (3 * m) xs)))) \<and>
   (aug_path_dfs R parents flow s t = Some (Inr (path, f)) \<longrightarrow>
      flow \<noteq> [] \<and> (\<exists>ys. path = ys @ [s] \<and> chain parents s t ys \<and> chain_edges R parents ys)) \<and>
   (nodes_closed R \<and> level_bfs R flow' s' t' = Inr (parents, level) \<and> chain parents s t xs \<longrightarrow>
      chain_edges R parents xs)"
proof -
  have 1: "\<exists>m. py_max (map snd flow) = Inr m \<and>
         aug_path_dfs R parents flow s t =
           Some (Inr (xs @ [s], bottleneck R parents flow (3 * m) xs))"
    if a: "flow \<noteq> [] \<and> chain parents s t xs \<and> chain_edges R parents xs"
  proof -
    from a obtain m where m: "py_max (map snd flow) = Inr m"
      using py_max_nonempty [of flow] by blast
    from a have "aug_loop R parents flow s [] (3 * m) t =
        Some (Inr ([] @ xs @ [s], bottleneck R parents flow (3 * m) xs))"
      by (intro aug_loop_chain) simp_all
    with m show ?thesis by (simp add: aug_path_dfs_def)
  qed
  have 2: "flow \<noteq> [] \<and>
      (\<exists>ys. path = ys @ [s] \<and> chain parents s t ys \<and> chain_edges R parents ys)"
    if a: "aug_path_dfs R parents flow s t = Some (Inr (path, f))"
  proof -
    from a obtain m where m: "py_max (map snd flow) = Inr m"
      and l: "aug_loop R parents flow s [] (3 * m) t = Some (Inr (path, f))"
      by (auto simp: aug_path_dfs_def split: sum.splits)
    from m have "flow \<noteq> []" using py_max_nonempty [of flow] by blast
    moreover from aug_loop_returns [OF l]
    have "\<exists>ys. path = ys @ [s] \<and> chain parents s t ys \<and> chain_edges R parents ys" by simp
    ultimately show ?thesis by simp
  qed
  have 3: "chain_edges R parents xs"
    if a: "nodes_closed R \<and> level_bfs R flow' s' t' = Inr (parents, level) \<and> chain parents s t xs"
  proof -
    from a have n: "nodes_closed R" and b: "level_bfs R flow' s' t' = Inr (parents, level)"
      and c: "chain parents s t xs" by simp_all
    from n b c show ?thesis by (rule level_bfs_chain_edges)
  qed
  from 1 2 3 show ?thesis by blast
qed


theorem aug_path_dfs_total_witness:
  "ex_small_flow \<noteq> [] \<and> nodes_closed ex_small_residual \<and>
   (\<exists>parents level f.
      level_bfs ex_small_residual ex_small_flow ''s'' ''t'' = Inr (parents, level) \<and>
      chain parents ''s'' ''t'' [''t'', ''a''] \<and>
      chain_edges ex_small_residual parents [''t'', ''a''] \<and>
      aug_path_dfs ex_small_residual parents ex_small_flow ''s'' ''t'' =
        Some (Inr ([''t'', ''a'', ''s''], f)))"
proof -
  let ?p = "[''a'' \<mapsto> ''s'', ''b'' \<mapsto> ''s'', ''t'' \<mapsto> ''a'', ''s'' \<mapsto> ''a'']"
  have n: "ex_small_flow \<noteq> []" by (simp add: ex_small_flow_def)
  have c: "chain ?p ''s'' ''t'' [''t'', ''a'']" by simp
  have nc: "nodes_closed ex_small_residual"
    by (simp add: nodes_closed_def ex_small_residual_def graph_defs)
  note th = aug_path_dfs_total [of ex_small_flow ?p "''s''" "''t''" "[''t'', ''a'']"
      ex_small_residual _ _ ex_small_flow "''s''" "''t''"]
  from th nc ex_small_bfs c have e: "chain_edges ex_small_residual ?p [''t'', ''a'']" by blast
  with th n c obtain m where
    "aug_path_dfs ex_small_residual ?p ex_small_flow ''s'' ''t'' =
       Some (Inr ([''t'', ''a''] @ [''s''], bottleneck ex_small_residual ?p ex_small_flow (3 * m)
          [''t'', ''a'']))"
    by blast
  with n nc ex_small_bfs c e show ?thesis by auto
qed


text \<open>
  The claim as first stated fails: with a flow mapping that is not empty and a parents
  map that leads from the target to the source, the lookup of the capacity raises a
  KeyError when the graph has no edge from the source to the target.
\<close>

theorem aug_path_dfs_missing_edge_counterexample:
  "[((''s'', ''t''), 1 :: int)] \<noteq> [] \<and> chain [''t'' \<mapsto> ''s''] ''s'' ''t'' [''t''] \<and>
   aug_path_dfs ex_disconnected [''t'' \<mapsto> ''s''] [((''s'', ''t''), 1)] ''s'' ''t'' =
     Some (Inl KeyError)"
  by (simp add: aug_defs aug_loop.simps ex_disconnected_def graph_defs)


text \<open>
  Claim C4 says that the value returned with the path is the minimum residual capacity
  over the edges of the path. The seed, which the source's comment calls a large value,
  is three times the largest flow value and need not be large: for the flow of value 1
  along \<open>s, a, t\<close> in the example network the path found has residual capacities 9 and
  4, and \<open>aug_path_dfs\<close> returns 3.
\<close>

theorem aug_path_dfs_seed_caps_bottleneck:
  "residual_graph ex_net ex_small_flow = Inr ex_small_residual \<and>
   (case level_bfs ex_small_residual ex_small_flow ''s'' ''t'' of
      Inl e \<Rightarrow> False
    | Inr (parents, level) \<Rightarrow>
        aug_path_dfs ex_small_residual parents ex_small_flow ''s'' ''t'' =
          Some (Inr ([''t'', ''a'', ''s''], 3))) \<and>
   edge_capacity ex_small_residual ''s'' ''a'' = Inr 9 \<and>
   edge_capacity ex_small_residual ''a'' ''t'' = Inr 4"
  by (simp add: residual_graph_def residual_step_def level_bfs_def aug_defs aug_loop.simps
        ex_net_def ex_small_flow_def ex_small_residual_def graph_defs)


end
